theory Spec2Isabelle
  imports Complex_Main
begin

section \<open>The accumulator race of \<open>simulateLCA\<close> (src/LCA4/src/lcaC.c)\<close>

text \<open>
  \<open>simulateLCA\<close> receives thirteen pointers. The scalar and input ones are collected in
  the record \<open>lca_params\<close>, under the names of the C arguments. The arrays \<open>I\<close> and \<open>x0\<close>
  are lists, read at index \<open>z\<close> for \<open>z < nAcc\<close>; the C code needs both to hold at least
  \<open>nAcc\<close> values. \<open>nAcc\<close> sizes the two variable-length arrays \<open>x\<close> and \<open>dummy\<close>, so it
  is a natural number. \<open>maxiter\<close>, \<open>nTrials\<close> and \<open>nonLinear\<close> are C ints, and so are the
  counter \<open>iter\<close> and the cells of \<open>resp\<close>; they are integers here, and
  \<open>run_trial_outcome\<close> below bounds \<open>iter\<close> by \<open>maxiter\<close> and a response by \<open>nAcc\<close>, so
  no C int wraps around.

  The type \<open>'a\<close> stands for C's \<open>double\<close>. The trial loop uses only \<open>+\<close>, \<open>-\<close>, \<open>*\<close>,
  \<open>0\<close> and the comparisons, so it is written once for every type that has them. It is
  read at \<open>real\<close> (exact arithmetic, without rounding or overflow) and at the type
  \<open>double\<close> below (binary64: every operation rounds to nearest, overflows to an
  infinity, and propagates NaN).
\<close>

record 'a lca_params =
  nAcc :: nat
  I :: "'a list"
  kappa :: 'a
  beta :: 'a
  Z :: 'a
  s :: 'a
  dt :: 'a
  maxiter :: int
  nTrials :: int
  nonLinear :: int
  x0 :: "'a list"

text \<open>
  The locals of one trial: the arrays \<open>x\<close> and \<open>dummy\<close>, the counter \<open>iter\<close>, the flag
  \<open>winner\<close>, and the output cell \<open>resp[i]\<close> of the trial. \<open>drawn\<close> counts the calls of
  \<open>norm_rand()\<close> made since \<open>GetRNGstate()\<close>: the generator is a sequence
  \<open>rng :: nat \<Rightarrow> 'a\<close> of the values it will return, and call number \<open>k\<close> returns \<open>rng k\<close>.
\<close>

record 'a trial_state =
  x :: "'a list"
  dummy :: "'a list"
  iter :: int
  resp :: int
  winner :: bool
  drawn :: nat

text \<open>Line 47: the factor of the noise, computed once before the trials.\<close>

definition noise_factor :: "real \<Rightarrow> real \<Rightarrow> real" where
  "noise_factor dtv sv = sqrt (dtv * sv * sv)"

text \<open>Lines 73-76: \<open>dummy[z] = x[z]; dummy[z] = dummy[z]*(*dt)*(*beta)\<close> for each \<open>z\<close>.\<close>

definition scale_dummy :: "('a::times) lca_params \<Rightarrow> 'a list \<Rightarrow> 'a list \<Rightarrow> 'a list" where
  "scale_dummy p xv dv = fold (\<lambda>z d. d[z := xv ! z * dt p * beta p]) [0..<nAcc p] dv"

text \<open>Lines 79-83: \<open>sum = 0; sum = sum + dummy[a]\<close> for each \<open>a\<close>.\<close>

definition sum_dummy :: "('a::{zero,plus}) lca_params \<Rightarrow> 'a list \<Rightarrow> 'a" where
  "sum_dummy p dv = fold (\<lambda>a sm. sm + dv ! a) [0..<nAcc p] 0"

text \<open>
  Lines 86-88: the array \<open>x\<close> is updated in place, cell after cell, each cell with one
  call of \<open>norm_rand()\<close>.
\<close>

definition update_x ::
  "('a::{plus,minus,times}) lca_params \<Rightarrow> 'a \<Rightarrow> (nat \<Rightarrow> 'a) \<Rightarrow> 'a \<Rightarrow> 'a list
     \<Rightarrow> 'a list \<times> nat \<Rightarrow> 'a list \<times> nat" where
  "update_x p rhs rng sm dv =
     fold (\<lambda>z (xv, k).
             (xv[z := xv ! z + dt p * I p ! z - kappa p * xv ! z * dt p - sm + dv ! z
                        + rhs * rng k],
              Suc k))
          [0..<nAcc p]"

text \<open>
  Lines 94-106: one pass over the accumulators; the threshold test of cell \<open>z\<close> comes
  before the clamp of cell \<open>z\<close>.
\<close>

definition check_cell :: "('a::{zero,ord}) lca_params \<Rightarrow> nat \<Rightarrow> 'a trial_state \<Rightarrow> 'a trial_state" where
  "check_cell p z st =
     (let st1 = (if x st ! z \<ge> Z p then st\<lparr>resp := int z + 1, winner := True\<rparr> else st)
      in if nonLinear p = 1
         then (if x st1 ! z < 0 then st1\<lparr>x := (x st1)[z := 0]\<rparr> else st1)
         else st1)"

definition check_winner :: "('a::{zero,ord}) lca_params \<Rightarrow> 'a trial_state \<Rightarrow> 'a trial_state" where
  "check_winner p st = fold (check_cell p) [0..<nAcc p] st"

text \<open>
  Lines 73-91 of the loop body: contributions, their sum, the update of \<open>x\<close>, and the
  increment of \<open>iter\<close>.
\<close>

definition update_phase ::
  "('a::{zero,plus,minus,times}) lca_params \<Rightarrow> 'a \<Rightarrow> (nat \<Rightarrow> 'a)
     \<Rightarrow> 'a trial_state \<Rightarrow> 'a trial_state" where
  "update_phase p rhs rng st =
     (let dv = scale_dummy p (x st) (dummy st);
          sm = sum_dummy p dv;
          (xv, k) = update_x p rhs rng sm dv (x st, drawn st)
      in st\<lparr>x := xv, dummy := dv, drawn := k, iter := iter st + 1\<rparr>)"

text \<open>Lines 71-106: the body of the do-while loop.\<close>

definition lca_step ::
  "('a::{zero,plus,minus,times,ord}) lca_params \<Rightarrow> 'a \<Rightarrow> (nat \<Rightarrow> 'a)
     \<Rightarrow> 'a trial_state \<Rightarrow> 'a trial_state" where
  "lca_step p rhs rng st = check_winner p (update_phase p rhs rng st)"

lemma fold_check_cell_iter: "iter (fold (check_cell p) zs st) = iter st"
  by (induction zs arbitrary: st) (simp_all add: check_cell_def Let_def)

lemma iter_lca_step: "iter (lca_step p rhs rng st) = iter st + 1"
  by (simp add: lca_step_def update_phase_def check_winner_def fold_check_cell_iter Let_def
        split: prod.split)

text \<open>
  Lines 70-107: \<open>do { ... } while (iter < *maxiter && winner == false)\<close>. The body runs
  before the test.
\<close>

function trial_loop ::
  "('a::{zero,plus,minus,times,ord}) lca_params \<Rightarrow> 'a \<Rightarrow> (nat \<Rightarrow> 'a)
     \<Rightarrow> 'a trial_state \<Rightarrow> 'a trial_state" where
  "trial_loop p rhs rng st =
     (let st' = lca_step p rhs rng st
      in if iter st' < maxiter p \<and> winner st' = False then trial_loop p rhs rng st' else st')"
  by pat_completeness auto
termination
  by (relation "measure (\<lambda>(p, rhs, rng, st). nat (maxiter p - iter st))")
     (simp_all add: iter_lca_step)

declare trial_loop.simps [simp del]

text \<open>
  Lines 51-67: the start of a trial. Every cell of \<open>x\<close> and \<open>dummy\<close> is written from
  \<open>x0\<close> before it is read.
\<close>

definition init_trial :: "'a lca_params \<Rightarrow> nat \<Rightarrow> 'a trial_state" where
  "init_trial p k =
     \<lparr>x = map (\<lambda>z. x0 p ! z) [0..<nAcc p], dummy = map (\<lambda>z. x0 p ! z) [0..<nAcc p],
      iter = 0, resp = - 1, winner = False, drawn = k\<rparr>"

definition run_trial ::
  "('a::{zero,plus,minus,times,ord}) lca_params \<Rightarrow> 'a \<Rightarrow> (nat \<Rightarrow> 'a) \<Rightarrow> nat \<Rightarrow> 'a trial_state" where
  "run_trial p rhs rng k = trial_loop p rhs rng (init_trial p k)"

text \<open>
  Lines 50-112: the trials run one after the other on one generator; \<open>run_trials\<close> gives
  the final state of each of the next \<open>n\<close> trials, the first one starting at draw \<open>k\<close>.
\<close>

fun run_trials ::
  "('a::{zero,plus,minus,times,ord}) lca_params \<Rightarrow> 'a \<Rightarrow> (nat \<Rightarrow> 'a) \<Rightarrow> nat \<Rightarrow> nat
     \<Rightarrow> 'a trial_state list" where
  "run_trials p rhs rng 0 k = []"
| "run_trials p rhs rng (Suc n) k =
     (let st = run_trial p rhs rng k in st # run_trials p rhs rng n (drawn st))"

text \<open>Line 110: \<open>rt[i] = ((double) iter)*(*dt) - (*dt)/((double) 2.0)\<close>.\<close>

definition reaction_time :: "real lca_params \<Rightarrow> real trial_state \<Rightarrow> real" where
  "reaction_time p st = of_int (iter st) * dt p - dt p / 2"

text \<open>
  The whole function: the output arrays \<open>resp\<close> and \<open>rt\<close>, cell \<open>i\<close> of each written by
  trial \<open>i\<close> only, for \<open>i < nTrials\<close>.
\<close>

definition trial_states :: "real lca_params \<Rightarrow> (nat \<Rightarrow> real) \<Rightarrow> real trial_state list" where
  "trial_states p rng = run_trials p (noise_factor (dt p) (s p)) rng (nat (nTrials p)) 0"

definition simulateLCA :: "real lca_params \<Rightarrow> (nat \<Rightarrow> real) \<Rightarrow> int list \<times> real list" where
  "simulateLCA p rng =
     (let sts = trial_states p rng in (map resp sts, map (reaction_time p) sts))"

section \<open>Binary64 arithmetic\<close>

text \<open>
  The values of an IEEE 754 double: NaN, the two infinities, and the finite values as
  the real numbers they denote (one zero: the sign of zero is not observable by \<open>+\<close>,
  \<open>-\<close>, \<open>*\<close>, \<open>sqrt\<close> followed by comparisons). A finite double is \<open>m * 2^e\<close> with
  \<open>|m| < 2^53\<close> and \<open>-1074 \<le> e \<le> 971\<close>.
\<close>

datatype double = NaN | PInf | MInf | Fin real

text \<open>
  Rounding to nearest, ties to even: \<open>ulp_exp r\<close> is the exponent of the unit in the
  last place at \<open>r\<close> (\<open>-1074\<close> in the subnormal range), \<open>rnd r\<close> is the multiple of that
  unit nearest to \<open>r\<close>, and a result of magnitude \<open>2^1024\<close> or more is an infinity.
\<close>

definition round_even :: "real \<Rightarrow> int" where
  "round_even q =
     (let n = \<lfloor>q\<rfloor>; f = q - of_int n
      in if f < 1/2 then n else if 1/2 < f then n + 1 else if even n then n else n + 1)"

definition ulp_exp :: "real \<Rightarrow> int" where
  "ulp_exp r = max (\<lfloor>log 2 \<bar>r\<bar>\<rfloor> - 52) (- 1074)"

definition huge :: real where
  "huge = 2 powi 1024"

definition rnd :: "real \<Rightarrow> double" where
  "rnd r =
     (if r = 0 then Fin 0
      else let v = of_int (round_even (r / 2 powi ulp_exp r)) * 2 powi ulp_exp r
           in if huge \<le> \<bar>v\<bar> then (if 0 < r then PInf else MInf) else Fin v)"

definition representable :: "real \<Rightarrow> bool" where
  "representable r \<longleftrightarrow>
     (\<exists>m e. r = of_int m * 2 powi e \<and> \<bar>m\<bar> < 2 ^ 53 \<and> - 1074 \<le> e \<and> e \<le> 971)"

text \<open>
  The operations of the C code on doubles: the exact result, rounded, each operation on
  its own (no fused multiply-add, no extended precision). An operation with a NaN operand
  gives NaN, \<open>\<infinity> - \<infinity>\<close> and \<open>0 * \<infinity>\<close> give NaN, every comparison with NaN is
  false, and \<open>a - b\<close> is \<open>a + (- b)\<close>.
\<close>

fun negate :: "double \<Rightarrow> double" where
  "negate NaN = NaN"
| "negate PInf = MInf"
| "negate MInf = PInf"
| "negate (Fin a) = Fin (- a)"

fun dsign :: "double \<Rightarrow> int" where
  "dsign NaN = 0"
| "dsign PInf = 1"
| "dsign MInf = - 1"
| "dsign (Fin a) = (if 0 < a then 1 else if a < 0 then - 1 else 0)"

instantiation double :: "{zero,plus,minus,times,ord}"
begin

definition zero_double :: double where
  "zero_double = Fin 0"

fun plus_double :: "double \<Rightarrow> double \<Rightarrow> double" where
  "plus_double NaN b = NaN"
| "plus_double a NaN = NaN"
| "plus_double (Fin a) (Fin b) = rnd (a + b)"
| "plus_double (Fin a) b = b"
| "plus_double a (Fin b) = a"
| "plus_double a b = (if a = b then a else NaN)"

definition minus_double :: "double \<Rightarrow> double \<Rightarrow> double" where
  "minus_double a b = a + negate b"

fun times_double :: "double \<Rightarrow> double \<Rightarrow> double" where
  "times_double NaN b = NaN"
| "times_double a NaN = NaN"
| "times_double (Fin a) (Fin b) = rnd (a * b)"
| "times_double a b =
     (if dsign a * dsign b = 0 then NaN else if 0 < dsign a * dsign b then PInf else MInf)"

fun less_eq_double :: "double \<Rightarrow> double \<Rightarrow> bool" where
  "less_eq_double NaN b = False"
| "less_eq_double a NaN = False"
| "less_eq_double (Fin a) (Fin b) = (a \<le> b)"
| "less_eq_double MInf b = True"
| "less_eq_double a PInf = True"
| "less_eq_double a b = False"

fun less_double :: "double \<Rightarrow> double \<Rightarrow> bool" where
  "less_double NaN b = False"
| "less_double a NaN = False"
| "less_double (Fin a) (Fin b) = (a < b)"
| "less_double PInf b = False"
| "less_double a MInf = False"
| "less_double a b = True"

instance ..

end

text \<open>The correctly rounded square root of \<open>math.h\<close>, and line 47 on doubles.\<close>

fun sqrt64 :: "double \<Rightarrow> double" where
  "sqrt64 NaN = NaN"
| "sqrt64 PInf = PInf"
| "sqrt64 MInf = NaN"
| "sqrt64 (Fin a) = (if a < 0 then NaN else rnd (sqrt a))"

definition noise_factor64 :: "double \<Rightarrow> double \<Rightarrow> double" where
  "noise_factor64 dtv sv = sqrt64 (dtv * sv * sv)"

section \<open>Notions used to state the properties\<close>

text \<open>
  The accumulators at or above the threshold, in index order; and the value a cell holds
  after the clamp of lines 101-105.
\<close>

definition crossers :: "('a::ord) lca_params \<Rightarrow> 'a list \<Rightarrow> nat list" where
  "crossers p xv = filter (\<lambda>z. xv ! z \<ge> Z p) [0..<nAcc p]"

definition clamp :: "('a::{zero,ord}) lca_params \<Rightarrow> 'a \<Rightarrow> 'a" where
  "clamp p v = (if nonLinear p = 1 \<and> v < 0 then 0 else v)"

text \<open>
  The two arrays of a trial have \<open>nAcc\<close> cells. \<open>updated_cell\<close> is the value line 87
  gives cell \<open>z\<close> when every read is from the state at the start of the step.
\<close>

definition arrays_sized :: "'a lca_params \<Rightarrow> 'a trial_state \<Rightarrow> bool" where
  "arrays_sized p st \<longleftrightarrow> length (x st) = nAcc p \<and> length (dummy st) = nAcc p"

definition updated_cell ::
  "('a::{zero,plus,minus,times}) lca_params \<Rightarrow> 'a \<Rightarrow> (nat \<Rightarrow> 'a) \<Rightarrow> 'a trial_state \<Rightarrow> nat \<Rightarrow> 'a" where
  "updated_cell p rhs rng st z =
     x st ! z + dt p * I p ! z - kappa p * x st ! z * dt p
       - sum_dummy p (map (\<lambda>a. x st ! a * dt p * beta p) [0..<nAcc p])
       + x st ! z * dt p * beta p + rhs * rng (drawn st + z)"

text \<open>
  The states in which a trial that starts at draw \<open>k\<close> enters the loop body: the initial
  one, and each state after a step that passed the test of line 107.
\<close>

inductive trial_reach ::
  "('a::{zero,plus,minus,times,ord}) lca_params \<Rightarrow> 'a \<Rightarrow> (nat \<Rightarrow> 'a) \<Rightarrow> nat
     \<Rightarrow> 'a trial_state \<Rightarrow> bool"
  for p rhs rng k where
  enter: "trial_reach p rhs rng k (init_trial p k)"
| again: "trial_reach p rhs rng k st \<Longrightarrow>
          iter (lca_step p rhs rng st) < maxiter p \<and> winner (lca_step p rhs rng st) = False \<Longrightarrow>
          trial_reach p rhs rng k (lca_step p rhs rng st)"


text \<open>Two states of a trial that differ at most in the array \<open>dummy\<close>.\<close>

definition same_race :: "'a trial_state \<Rightarrow> 'a trial_state \<Rightarrow> bool" where
  "same_race st' st \<longleftrightarrow>
     x st' = x st \<and> iter st' = iter st \<and> resp st' = resp st \<and> winner st' = winner st
       \<and> drawn st' = drawn st"

section \<open>Example configurations\<close>

text \<open>Two generators: one that always returns 0, one that returns 1, 2, 3, ...\<close>

definition zero_draws :: "nat \<Rightarrow> real" where
  "zero_draws k = 0"

definition ramp_draws :: "nat \<Rightarrow> real" where
  "ramp_draws k = real k + 1"

text \<open>Accumulator 1 reaches the threshold in step 2, the last step allowed.\<close>

definition late_p :: "real lca_params" where
  "late_p = \<lparr>nAcc = 2, I = [1, 0], kappa = 0, beta = 0, Z = 1, s = 0, dt = 1/2,
             maxiter = 2, nTrials = 1, nonLinear = 0, x0 = [0, 0]\<rparr>"

text \<open>No input: two trials, both without a response.\<close>

definition idle_p :: "real lca_params" where
  "idle_p = \<lparr>nAcc = 2, I = [0, 0], kappa = 0, beta = 0, Z = 1, s = 0, dt = 1/2,
             maxiter = 2, nTrials = 2, nonLinear = 0, x0 = [0, 0]\<rparr>"

text \<open>
  One accumulator that starts above the threshold, with leak, inhibition and noise.
\<close>

definition solo_p :: "real lca_params" where
  "solo_p = \<lparr>nAcc = 1, I = [1], kappa = 1/2, beta = 3, Z = 2, s = 1, dt = 1,
             maxiter = 3, nTrials = 1, nonLinear = 0, x0 = [4]\<rparr>"

text \<open>Accumulators 1 and 3 reach the threshold in the same step.\<close>

definition tie_p :: "real lca_params" where
  "tie_p = \<lparr>nAcc = 3, I = [1, 0, 1], kappa = 1/2, beta = 1/4, Z = 1, s = 0, dt = 1,
            maxiter = 5, nTrials = 1, nonLinear = 0, x0 = [0, 0, 0]\<rparr>"

text \<open>Two accumulators with leak, inhibition and noise, far below the threshold.\<close>

definition race_p :: "real lca_params" where
  "race_p = \<lparr>nAcc = 2, I = [1, 2], kappa = 1/2, beta = 1/4, Z = 100, s = 2, dt = 1,
             maxiter = 5, nTrials = 1, nonLinear = 0, x0 = [4, 8]\<rparr>"

text \<open>
  A configuration over \<open>double\<close> with finite arguments whose first inhibition term
  \<open>x * dt * beta = 1 * 2 * 2^1023\<close> overflows, and a generator that always returns 1.
\<close>

definition big :: real where
  "big = 2 powi 1023"

definition burst_p :: "double lca_params" where
  "burst_p = \<lparr>nAcc = 2, I = [Fin 1, Fin 1], kappa = Fin 0, beta = Fin big, Z = Fin 4, s = Fin 0,
              dt = Fin 2, maxiter = 4, nTrials = 1, nonLinear = 1, x0 = [Fin 1, Fin 0]\<rparr>"

definition unit_draws :: "nat \<Rightarrow> double" where
  "unit_draws k = Fin 1"


text \<open>
  One accumulator over \<open>double\<close>, run once with \<open>beta = 3\<close> and once with
  \<open>beta = 2^60\<close>.
\<close>

definition wide :: real where
  "wide = 2 ^ 60"

definition lone_p :: "double lca_params" where
  "lone_p = \<lparr>nAcc = 1, I = [Fin 1], kappa = Fin 1, beta = Fin 3, Z = Fin 2, s = Fin 1,
             dt = Fin 1, maxiter = 1, nTrials = 1, nonLinear = 0, x0 = [Fin 4]\<rparr>"

section \<open>The loops as whole-array operations\<close>

lemma update_after_prefix:
  "length pre = m \<Longrightarrow> m < length d \<Longrightarrow> (pre @ drop m d)[m := v] = (pre @ [v]) @ drop (Suc m) d"
  by (simp add: upd_conv_take_nth_drop)

lemma fold_write_cells:
  "m \<le> length d \<Longrightarrow> fold (\<lambda>z d. d[z := f z]) [0..<m] d = map f [0..<m] @ drop m d"
proof (induction m)
  case 0
  then show ?case by simp
next
  case (Suc m)
  then have "fold (\<lambda>z d. d[z := f z]) [0..<Suc m] d = (map f [0..<m] @ drop m d)[m := f m]"
    by simp
  also have "\<dots> = (map f [0..<m] @ [f m]) @ drop (Suc m) d"
    using Suc.prems by (intro update_after_prefix) simp_all
  finally show ?case by simp
qed

lemma fold_update_cells:
  "m \<le> length xv \<Longrightarrow>
   fold (\<lambda>z (xv, k). (xv[z := g z (xv ! z) k], Suc k)) [0..<m] (xv, k0) =
     (map (\<lambda>z. g z (xv ! z) (k0 + z)) [0..<m] @ drop m xv, k0 + m)"
proof (induction m)
  case 0
  then show ?case by simp
next
  case (Suc m)
  let ?pre = "map (\<lambda>z. g z (xv ! z) (k0 + z)) [0..<m]"
  have nth: "(?pre @ drop m xv) ! m = xv ! m"
    using Suc.prems by (simp add: nth_append)
  have upd: "(?pre @ drop m xv)[m := v] = (?pre @ [v]) @ drop (Suc m) xv" for v
    using Suc.prems by (intro update_after_prefix) simp_all
  have "fold (\<lambda>z (xv, k). (xv[z := g z (xv ! z) k], Suc k)) [0..<Suc m] (xv, k0) =
        ((?pre @ drop m xv)[m := g m ((?pre @ drop m xv) ! m) (k0 + m)], Suc (k0 + m))"
    using Suc by simp
  also have "\<dots> = ((?pre @ [g m (xv ! m) (k0 + m)]) @ drop (Suc m) xv, k0 + Suc m)"
    by (simp only: nth upd add_Suc_right)
  finally show ?case by simp
qed

lemma check_cell_fields:
  "iter (check_cell p z st) = iter st"
  "drawn (check_cell p z st) = drawn st"
  "dummy (check_cell p z st) = dummy st"
  "x (check_cell p z st) = (x st)[z := clamp p (x st ! z)]"
  "resp (check_cell p z st) = (if x st ! z \<ge> Z p then int z + 1 else resp st)"
  "winner (check_cell p z st) = (winner st \<or> x st ! z \<ge> Z p)"
  by (simp_all add: check_cell_def clamp_def Let_def)

lemma fold_check_cell:
  "m \<le> length (x st) \<Longrightarrow>
   fold (check_cell p) [0..<m] st =
     st\<lparr>x := map (\<lambda>z. clamp p (x st ! z)) [0..<m] @ drop m (x st),
        resp := (let cs = filter (\<lambda>z. x st ! z \<ge> Z p) [0..<m]
                 in if cs = [] then resp st else int (last cs) + 1),
        winner := (winner st \<or> filter (\<lambda>z. x st ! z \<ge> Z p) [0..<m] \<noteq> [])\<rparr>"
proof (induction m)
  case 0
  then show ?case by simp
next
  case (Suc m)
  let ?pre = "map (\<lambda>z. clamp p (x st ! z)) [0..<m]"
  have nth: "(?pre @ drop m (x st)) ! m = x st ! m"
    using Suc.prems by (simp add: nth_append)
  have upd: "(?pre @ drop m (x st))[m := v] = (?pre @ [v]) @ drop (Suc m) (x st)" for v
    using Suc.prems by (intro update_after_prefix) simp_all
  have "fold (check_cell p) [0..<Suc m] st = check_cell p m (fold (check_cell p) [0..<m] st)"
    by simp
  also have "\<dots> = check_cell p m
     (st\<lparr>x := ?pre @ drop m (x st),
        resp := (let cs = filter (\<lambda>z. x st ! z \<ge> Z p) [0..<m]
                 in if cs = [] then resp st else int (last cs) + 1),
        winner := (winner st \<or> filter (\<lambda>z. x st ! z \<ge> Z p) [0..<m] \<noteq> [])\<rparr>)"
    using Suc by simp
  finally show ?case
    by (intro trial_state.equality) (simp_all add: check_cell_fields nth upd Let_def)
qed

lemma scale_dummy_eq:
  "length dv = nAcc p \<Longrightarrow> scale_dummy p xv dv = map (\<lambda>z. xv ! z * dt p * beta p) [0..<nAcc p]"
  by (simp add: scale_dummy_def fold_write_cells)

lemma update_x_eq:
  "length xv = nAcc p \<Longrightarrow>
   update_x p rhs rng sm dv (xv, k) =
     (map (\<lambda>z. xv ! z + dt p * I p ! z - kappa p * xv ! z * dt p - sm + dv ! z + rhs * rng (k + z))
          [0..<nAcc p],
      k + nAcc p)"
  unfolding update_x_def
  by (subst fold_update_cells
        [where g = "\<lambda>z v k. v + dt p * I p ! z - kappa p * v * dt p - sm + dv ! z + rhs * rng k"])
     simp_all

lemma update_phase_eq:
  assumes "arrays_sized p st"
  shows "update_phase p rhs rng st =
           st\<lparr>x := map (updated_cell p rhs rng st) [0..<nAcc p],
              dummy := map (\<lambda>z. x st ! z * dt p * beta p) [0..<nAcc p],
              drawn := drawn st + nAcc p,
              iter := iter st + 1\<rparr>"
  using assms
  by (simp add: update_phase_def arrays_sized_def scale_dummy_eq update_x_eq updated_cell_def
        Let_def cong: map_cong)

lemma check_winner_eq:
  "length (x st) = nAcc p \<Longrightarrow>
   check_winner p st =
     st\<lparr>x := map (\<lambda>z. clamp p (x st ! z)) [0..<nAcc p],
        resp := (if crossers p (x st) = [] then resp st else int (last (crossers p (x st))) + 1),
        winner := (winner st \<or> crossers p (x st) \<noteq> [])\<rparr>"
  by (simp add: check_winner_def fold_check_cell crossers_def Let_def)

lemma lca_step_eq:
  assumes "arrays_sized p st"
  shows "lca_step p rhs rng st =
           (let xu = map (updated_cell p rhs rng st) [0..<nAcc p] in
            \<lparr>x = map (clamp p) xu,
             dummy = map (\<lambda>z. x st ! z * dt p * beta p) [0..<nAcc p],
             iter = iter st + 1,
             resp = (if crossers p xu = [] then resp st else int (last (crossers p xu)) + 1),
             winner = (winner st \<or> crossers p xu \<noteq> []),
             drawn = drawn st + nAcc p\<rparr>)"
  unfolding lca_step_def update_phase_eq [OF assms]
  by (subst check_winner_eq) (simp_all add: Let_def cong: map_cong)

lemma sorted_le_last: "sorted xs \<Longrightarrow> y \<in> set xs \<Longrightarrow> y \<le> last xs"
  by (induction xs) auto

lemma last_filter_upt_Max:
  assumes "filter P [0..<n] \<noteq> []"
  shows "last (filter P [0..<n]) = Max (set (filter P [0..<n]))"
proof -
  let ?cs = "filter P [0..<n]"
  have "sorted ?cs" by (intro sorted_wrt_filter) simp
  then have "\<And>y. y \<in> set ?cs \<Longrightarrow> y \<le> last ?cs" by (rule sorted_le_last)
  moreover have "last ?cs \<in> set ?cs" using assms by (rule last_in_set)
  ultimately show ?thesis by (intro Max_eqI [symmetric]) simp_all
qed

lemma sum_dummy_real:
  fixes p :: "real lca_params"
  shows "sum_dummy p dv = (\<Sum>a<nAcc p. dv ! a)"
proof -
  have "fold (\<lambda>a sm. sm + dv ! a) [0..<n] 0 = (\<Sum>a<n. dv ! a)" for n
    by (induction n) simp_all
  then show ?thesis by (simp add: sum_dummy_def)
qed

lemma sum_dummy_contributions:
  fixes p :: "real lca_params"
  shows "sum_dummy p (map f [0..<nAcc p]) = (\<Sum>a<nAcc p. f a)"
  unfolding sum_dummy_real by (rule sum.cong) simp_all

section \<open>The states of a trial\<close>

lemma arrays_sized_init: "arrays_sized p (init_trial p k)"
  by (simp add: arrays_sized_def init_trial_def)

lemma arrays_sized_step: "arrays_sized p st \<Longrightarrow> arrays_sized p (lca_step p rhs rng st)"
  by (simp add: lca_step_eq Let_def) (simp add: arrays_sized_def)

lemma reach_arrays_sized: "trial_reach p rhs rng k st \<Longrightarrow> arrays_sized p st"
  by (induction rule: trial_reach.induct) (simp_all add: arrays_sized_init arrays_sized_step)

lemma reach_no_winner:
  "trial_reach p rhs rng k st \<Longrightarrow> winner st = False \<and> resp st = - 1 \<and> 0 \<le> iter st
     \<and> (iter st = 0 \<or> iter st < maxiter p)"
proof (induction rule: trial_reach.induct)
  case enter
  show ?case by (simp add: init_trial_def)
next
  case (again st)
  have sz: "arrays_sized p st" using again.hyps(1) by (rule reach_arrays_sized)
  have "resp (lca_step p rhs rng st) = - 1"
    using again.hyps(2) again.IH by (simp add: lca_step_eq [OF sz] Let_def)
  with again show ?case by (simp add: iter_lca_step)
qed

lemma reach_trial_loop:
  "trial_reach p rhs rng k st \<Longrightarrow> trial_loop p rhs rng st = run_trial p rhs rng k"
proof (induction rule: trial_reach.induct)
  case enter
  show ?case by (simp add: run_trial_def)
next
  case (again st)
  then show ?case by (subst (asm) trial_loop.simps) (simp add: Let_def)
qed

lemma trial_loop_last_step:
  "trial_reach p rhs rng k st \<Longrightarrow>
   \<exists>st'. trial_reach p rhs rng k st' \<and> trial_loop p rhs rng st = lca_step p rhs rng st'
      \<and> \<not> (iter (lca_step p rhs rng st') < maxiter p \<and> winner (lca_step p rhs rng st') = False)"
proof (induction p rhs rng st rule: trial_loop.induct)
  case (1 p rhs rng st)
  show ?case
  proof (cases "iter (lca_step p rhs rng st) < maxiter p \<and> winner (lca_step p rhs rng st) = False")
    case True
    then have "trial_reach p rhs rng k (lca_step p rhs rng st)"
      using "1.prems" by (intro trial_reach.again)
    from "1.IH" [OF refl True this] True show ?thesis
      by (subst trial_loop.simps) (simp add: Let_def)
  next
    case False
    then have "trial_loop p rhs rng st = lca_step p rhs rng st"
      by (subst trial_loop.simps) (auto simp add: Let_def)
    with False "1.prems" show ?thesis by blast
  qed
qed

lemma run_trial_last_step:
  "\<exists>st. trial_reach p rhs rng k st \<and> run_trial p rhs rng k = lca_step p rhs rng st
      \<and> \<not> (iter (lca_step p rhs rng st) < maxiter p \<and> winner (lca_step p rhs rng st) = False)"
  unfolding run_trial_def by (rule trial_loop_last_step) (rule trial_reach.enter)

lemma step_resp_winner:
  assumes "arrays_sized p st" "winner st = False" "resp st = - 1"
  shows "(resp (lca_step p rhs rng st) = - 1) = (winner (lca_step p rhs rng st) = False)"
    and "winner (lca_step p rhs rng st) \<Longrightarrow>
           1 \<le> resp (lca_step p rhs rng st) \<and> resp (lca_step p rhs rng st) \<le> int (nAcc p)"
proof -
  let ?cs = "crossers p (map (updated_cell p rhs rng st) [0..<nAcc p])"
  have "last ?cs \<in> set ?cs" if "?cs \<noteq> []" using that by (rule last_in_set)
  then have "last ?cs < nAcc p" if "?cs \<noteq> []" using that by (auto simp: crossers_def)
  then show "(resp (lca_step p rhs rng st) = - 1) = (winner (lca_step p rhs rng st) = False)"
    and "winner (lca_step p rhs rng st) \<Longrightarrow>
           1 \<le> resp (lca_step p rhs rng st) \<and> resp (lca_step p rhs rng st) \<le> int (nAcc p)"
    using assms by (auto simp add: lca_step_eq Let_def)
qed

lemma run_trial_outcome:
  fixes p :: "('a::{zero,plus,minus,times,ord}) lca_params" and rhs rng k
  defines "fin \<equiv> run_trial p rhs rng k"
  shows "1 \<le> iter fin"
    and "1 \<le> maxiter p \<Longrightarrow> iter fin \<le> maxiter p"
    and "(resp fin = - 1) = (winner fin = False)"
    and "winner fin = False \<Longrightarrow> 1 \<le> maxiter p \<Longrightarrow> iter fin = maxiter p"
    and "winner fin \<Longrightarrow> 1 \<le> resp fin \<and> resp fin \<le> int (nAcc p)"
proof -
  from run_trial_last_step [of p rhs rng k]
  obtain st where reach: "trial_reach p rhs rng k st"
    and last: "run_trial p rhs rng k = lca_step p rhs rng st"
    and exit: "\<not> (iter (lca_step p rhs rng st) < maxiter p
                   \<and> winner (lca_step p rhs rng st) = False)"
    by blast
  have fin: "fin = lca_step p rhs rng st" by (simp add: fin_def last)
  have stop: "\<not> (iter fin < maxiter p \<and> winner fin = False)" using exit by (simp add: fin)
  note nw = reach_no_winner [OF reach]
  note sz = reach_arrays_sized [OF reach]
  have it: "iter fin = iter st + 1" by (simp add: fin iter_lca_step)
  show "1 \<le> iter fin" using nw it by simp
  show "iter fin \<le> maxiter p" if "1 \<le> maxiter p" using nw it that by auto
  show "(resp fin = - 1) = (winner fin = False)"
    unfolding fin using sz nw by (intro step_resp_winner) simp_all
  show "iter fin = maxiter p" if "winner fin = False" "1 \<le> maxiter p"
    using nw it that stop by auto
  show "1 \<le> resp fin \<and> resp fin \<le> int (nAcc p)" if "winner fin"
    using that sz nw unfolding fin by (intro step_resp_winner) simp_all
qed

lemma step_outcome:
  fixes p :: "('a::{zero,plus,minus,times,ord}) lca_params" and rhs rng st
  assumes "arrays_sized p st" and "winner st = False" and "resp st = - 1"
  defines "cs \<equiv> crossers p (x (update_phase p rhs rng st))"
  shows "winner (lca_step p rhs rng st) = (cs \<noteq> [])"
    and "resp (lca_step p rhs rng st) = (if cs = [] then - 1 else int (Max (set cs)) + 1)"
    and "(resp (lca_step p rhs rng st) = - 1) = (cs = [])"
proof -
  let ?u = "update_phase p rhs rng st"
  have u: "length (x ?u) = nAcc p" "resp ?u = - 1" "winner ?u = False"
    using assms(2,3) by (simp_all add: update_phase_eq [OF assms(1)])
  have last: "last cs = Max (set cs)" if "cs \<noteq> []"
    using that unfolding cs_def crossers_def by (rule last_filter_upt_Max)
  show w: "winner (lca_step p rhs rng st) = (cs \<noteq> [])"
    by (simp add: lca_step_def check_winner_eq [OF u(1)] u cs_def)
  show r: "resp (lca_step p rhs rng st) = (if cs = [] then - 1 else int (Max (set cs)) + 1)"
    using last by (simp add: lca_step_def check_winner_eq [OF u(1)] u cs_def)
  show "(resp (lca_step p rhs rng st) = - 1) = (cs = [])"
    unfolding r by simp
qed

section \<open>The batch of trials\<close>

lemma length_run_trials: "length (run_trials p rhs rng n k) = n"
  by (induction n arbitrary: k) (simp_all add: Let_def)

lemma run_trials_nth:
  "i < n \<Longrightarrow> \<exists>k'. run_trials p rhs rng n k ! i = run_trial p rhs rng k'"
proof (induction n arbitrary: k i)
  case 0
  then show ?case by simp
next
  case (Suc n)
  show ?case
  proof (cases i)
    case 0
    then show ?thesis by (auto simp: Let_def)
  next
    case (Suc j)
    with Suc.prems have "j < n" by simp
    from Suc.IH [OF this] Suc show ?thesis by (simp add: Let_def)
  qed
qed

lemma length_trial_states: "length (trial_states p rng) = nat (nTrials p)"
  by (simp add: trial_states_def length_run_trials)

lemma trial_states_nth:
  "i < nat (nTrials p) \<Longrightarrow>
   \<exists>k. trial_states p rng ! i = run_trial p (noise_factor (dt p) (s p)) rng k"
  unfolding trial_states_def by (rule run_trials_nth)

lemma simulateLCA_nth:
  assumes "i < nat (nTrials p)"
  shows "fst (simulateLCA p rng) ! i = resp (trial_states p rng ! i)"
    and "snd (simulateLCA p rng) ! i = reaction_time p (trial_states p rng ! i)"
  using assms by (simp_all add: simulateLCA_def Let_def length_trial_states)

lemma length_simulateLCA:
  "length (fst (simulateLCA p rng)) = nat (nTrials p)"
  "length (snd (simulateLCA p rng)) = nat (nTrials p)"
  by (simp_all add: simulateLCA_def Let_def length_trial_states)

section \<open>One accumulator\<close>

lemma solo_updated_cell:
  fixes p :: "real lca_params"
  assumes "nAcc p = 1"
  shows "updated_cell p rhs rng st 0 =
           x st ! 0 + dt p * (I p ! 0 - kappa p * x st ! 0) + rhs * rng (drawn st)"
  using assms by (simp add: updated_cell_def sum_dummy_def algebra_simps)

lemma solo_step_beta:
  fixes p :: "real lca_params"
  assumes "nAcc p = 1" and "arrays_sized p st" and "arrays_sized p st'" and "same_race st' st"
  shows "same_race (lca_step (p\<lparr>beta := b\<rparr>) rhs rng st') (lca_step p rhs rng st)"
proof -
  let ?q = "p\<lparr>beta := b\<rparr>"
  have q: "nAcc ?q = 1" "arrays_sized ?q st'"
    using assms(1) assms(3) by (simp_all add: arrays_sized_def)
  have "updated_cell ?q rhs rng st' 0 = updated_cell p rhs rng st 0"
    using assms(4) by (simp add: solo_updated_cell [OF q(1)] solo_updated_cell [OF assms(1)]
        same_race_def)
  then show ?thesis
    using assms(1) assms(4)
    by (simp add: lca_step_eq [OF q(2)] lca_step_eq [OF assms(2)] same_race_def Let_def
        crossers_def clamp_def)
qed

lemma solo_loop_beta:
  fixes p :: "real lca_params"
  shows "nAcc p = 1 \<Longrightarrow> arrays_sized p st \<Longrightarrow> arrays_sized p st' \<Longrightarrow> same_race st' st \<Longrightarrow>
         same_race (trial_loop (p\<lparr>beta := b\<rparr>) rhs rng st') (trial_loop p rhs rng st)"
proof (induction p rhs rng st arbitrary: st' rule: trial_loop.induct)
  case (1 p rhs rng st)
  let ?q = "p\<lparr>beta := b\<rparr>"
  note n1 = "1.prems"(1)
  have step: "same_race (lca_step ?q rhs rng st') (lca_step p rhs rng st)"
    using "1.prems" by (intro solo_step_beta)
  have sz: "arrays_sized p (lca_step p rhs rng st)"
    using "1.prems"(2) by (rule arrays_sized_step)
  have "arrays_sized ?q st'" using "1.prems"(3) by (simp add: arrays_sized_def)
  then have "arrays_sized ?q (lca_step ?q rhs rng st')" by (rule arrays_sized_step)
  then have sz': "arrays_sized p (lca_step ?q rhs rng st')" by (simp add: arrays_sized_def)
  have unf: "trial_loop p rhs rng st =
      (if iter (lca_step p rhs rng st) < maxiter p \<and> winner (lca_step p rhs rng st) = False
       then trial_loop p rhs rng (lca_step p rhs rng st) else lca_step p rhs rng st)"
    by (subst trial_loop.simps) (simp add: Let_def)
  have unf': "trial_loop ?q rhs rng st' =
      (if iter (lca_step ?q rhs rng st') < maxiter p \<and> winner (lca_step ?q rhs rng st') = False
       then trial_loop ?q rhs rng (lca_step ?q rhs rng st') else lca_step ?q rhs rng st')"
    by (subst trial_loop.simps) (simp add: Let_def)
  have cond: "(iter (lca_step ?q rhs rng st') < maxiter p \<and> winner (lca_step ?q rhs rng st') = False)
      = (iter (lca_step p rhs rng st) < maxiter p \<and> winner (lca_step p rhs rng st) = False)"
    using step by (simp add: same_race_def)
  show ?case
  proof (cases "iter (lca_step p rhs rng st) < maxiter p \<and> winner (lca_step p rhs rng st) = False")
    case True
    with cond have True':
      "iter (lca_step ?q rhs rng st') < maxiter p \<and> winner (lca_step ?q rhs rng st') = False"
      by blast
    have "trial_loop p rhs rng st = trial_loop p rhs rng (lca_step p rhs rng st)"
      by (rule trans [OF unf if_P [OF True]])
    moreover have "trial_loop ?q rhs rng st' = trial_loop ?q rhs rng (lca_step ?q rhs rng st')"
      by (rule trans [OF unf' if_P [OF True']])
    ultimately show ?thesis using "1.IH" [OF refl True n1 sz sz' step] by simp
  next
    case False
    with cond have False':
      "\<not> (iter (lca_step ?q rhs rng st') < maxiter p \<and> winner (lca_step ?q rhs rng st') = False)"
      by blast
    have "trial_loop p rhs rng st = lca_step p rhs rng st"
      by (rule trans [OF unf if_not_P [OF False]])
    moreover have "trial_loop ?q rhs rng st' = lca_step ?q rhs rng st'"
      by (rule trans [OF unf' if_not_P [OF False']])
    ultimately show ?thesis using step by simp
  qed
qed

lemma solo_trial_beta:
  fixes p :: "real lca_params"
  assumes "nAcc p = 1"
  shows "same_race (run_trial (p\<lparr>beta := b\<rparr>) rhs rng k) (run_trial p rhs rng k)"
proof -
  have "init_trial (p\<lparr>beta := b\<rparr>) k = init_trial p k" by (simp add: init_trial_def)
  then show ?thesis
    unfolding run_trial_def
    using solo_loop_beta [OF assms arrays_sized_init arrays_sized_init, of k k b rhs rng]
    by (simp add: same_race_def)
qed

lemma solo_trials_beta:
  fixes p :: "real lca_params"
  assumes "nAcc p = 1"
  shows "list_all2 same_race (run_trials (p\<lparr>beta := b\<rparr>) rhs rng n k) (run_trials p rhs rng n k)"
proof (induction n arbitrary: k)
  case 0
  show ?case by simp
next
  case (Suc n)
  have st: "same_race (run_trial (p\<lparr>beta := b\<rparr>) rhs rng k) (run_trial p rhs rng k)"
    using assms by (rule solo_trial_beta)
  then have "drawn (run_trial (p\<lparr>beta := b\<rparr>) rhs rng k) = drawn (run_trial p rhs rng k)"
    by (simp add: same_race_def)
  with st Suc.IH show ?case by (simp add: Let_def)
qed

lemma list_all2_same_race_maps:
  assumes "list_all2 same_race sts' sts"
  shows "map x sts' = map x sts" and "map resp sts' = map resp sts"
    and "map iter sts' = map iter sts"
  using assms by (induction rule: list_all2_induct) (simp_all add: same_race_def)

section \<open>A noise factor of zero\<close>

lemma silent_step:
  fixes p :: "real lca_params"
  shows "lca_step p 0 rng1 st = lca_step p 0 rng2 st"
  by (simp add: lca_step_def update_phase_def update_x_def)

lemma silent_loop:
  fixes p :: "real lca_params"
  shows "rhs = 0 \<Longrightarrow> trial_loop p rhs rng1 st = trial_loop p rhs rng2 st"
proof (induction p rhs rng1 st rule: trial_loop.induct)
  case (1 p rhs rng1 st)
  have same: "lca_step p rhs rng2 st = lca_step p rhs rng1 st"
    using "1.prems" silent_step [of p rng2 st rng1] by simp
  show ?case
  proof (cases "iter (lca_step p rhs rng1 st) < maxiter p \<and> winner (lca_step p rhs rng1 st) = False")
    case True
    from "1.IH" [OF refl True "1.prems"] True show ?thesis
      by (subst trial_loop.simps, subst (2) trial_loop.simps) (simp add: Let_def same)
  next
    case False
    then show ?thesis
      by (subst trial_loop.simps, subst (2) trial_loop.simps) (auto simp add: Let_def same)
  qed
qed

lemma silent_trials:
  fixes p :: "real lca_params"
  shows "run_trials p 0 rng1 n k = run_trials p 0 rng2 n k"
proof (induction n arbitrary: k)
  case 0
  show ?case by simp
next
  case (Suc n)
  have "run_trial p 0 rng1 k = run_trial p 0 rng2 k"
    unfolding run_trial_def by (rule silent_loop) simp
  with Suc.IH show ?case by (simp add: Let_def)
qed

section \<open>Rounding to binary64\<close>

lemma two_powi_powr: "(2::real) powi k = 2 powr of_int k"
  by (simp add: powr_real_of_int')

lemma two_powi_less_iff: "(2::real) powi a < 2 powi b \<longleftrightarrow> a < b"
proof
  assume "(2::real) powi a < 2 powi b"
  then show "a < b"
    using power_int_increasing [of b a "2::real"] by (cases "a < b") simp_all
next
  assume "a < b"
  then show "(2::real) powi a < 2 powi b" by (intro power_int_strict_increasing) simp_all
qed

lemma two_powi_le_iff: "(2::real) powi a \<le> 2 powi b \<longleftrightarrow> a \<le> b"
  using two_powi_less_iff [of b a] by (simp add: not_less [symmetric] del: not_less)


lemma floor_log2_eq:
  assumes "2 powi k \<le> \<bar>r\<bar>" and "\<bar>r\<bar> < 2 powi (k + 1)"
  shows "\<lfloor>log 2 \<bar>r\<bar>\<rfloor> = k"
proof -
  have "0 < (2::real) powi k" by simp
  then have "0 < \<bar>r\<bar>" using assms(1) by linarith
  then show ?thesis
    using assms by (subst floor_log_eq_powr_iff) (simp_all add: two_powi_powr)
qed

lemma floor_log2_bounds:
  assumes "r \<noteq> 0"
  shows "2 powi \<lfloor>log 2 \<bar>r\<bar>\<rfloor> \<le> \<bar>r\<bar>" and "\<bar>r\<bar> < 2 powi (\<lfloor>log 2 \<bar>r\<bar>\<rfloor> + 1)"
proof -
  have "0 < \<bar>r\<bar>" using assms by simp
  from floor_log_eq_powr_iff [OF this, of 2 "\<lfloor>log 2 \<bar>r\<bar>\<rfloor>"]
  show "2 powi \<lfloor>log 2 \<bar>r\<bar>\<rfloor> \<le> \<bar>r\<bar>" and "\<bar>r\<bar> < 2 powi (\<lfloor>log 2 \<bar>r\<bar>\<rfloor> + 1)"
    by (simp_all add: two_powi_powr)
qed

lemma round_even_of_int [simp]: "round_even (of_int n) = n"
  by (simp add: round_even_def)

lemma round_even_between: "\<lfloor>q\<rfloor> \<le> round_even q \<and> round_even q \<le> \<lceil>q\<rceil>"
proof -
  have "\<lfloor>q\<rfloor> + 1 = \<lceil>q\<rceil>" if "q \<noteq> of_int \<lfloor>q\<rfloor>"
    using that by (metis ceiling_altdef)
  moreover have "\<lfloor>q\<rfloor> \<le> \<lceil>q\<rceil>" by (rule floor_le_ceiling)
  ultimately show ?thesis
    by (auto simp add: round_even_def Let_def)
qed


lemma round_even_abs_le:
  assumes "\<bar>q\<bar> \<le> of_int N"
  shows "\<bar>round_even q\<bar> \<le> N"
proof -
  have "- N \<le> \<lfloor>q\<rfloor>" using assms by (simp add: le_floor_iff abs_le_iff)
  moreover have "\<lceil>q\<rceil> \<le> N" using assms by (simp add: ceiling_le_iff abs_le_iff)
  ultimately show ?thesis using round_even_between [of q] by linarith
qed

lemma rnd_exact:
  assumes "representable r"
  shows "rnd r = Fin r"
proof (cases "r = 0")
  case True
  then show ?thesis by (simp add: rnd_def)
next
  case False
  from assms obtain m e0 where r: "r = of_int m * 2 powi e0"
    and m: "\<bar>m\<bar> < 2 ^ 53" and e0: "- 1074 \<le> e0" "e0 \<le> 971"
    unfolding representable_def by blast
  let ?k = "\<lfloor>log 2 \<bar>r\<bar>\<rfloor>"
  let ?e = "ulp_exp r"
  have "\<bar>r\<bar> = of_int \<bar>m\<bar> * 2 powi e0" by (simp add: r abs_mult power_int_abs)
  also have "\<dots> < 2 ^ 53 * 2 powi e0"
    using m by (intro mult_strict_right_mono) (simp_all add: of_int_less_iff [where 'a = real, symmetric] del: of_int_less_iff)
  also have "\<dots> = 2 powi (53 + e0)" by (simp add: power_int_add)
  finally have up: "\<bar>r\<bar> < 2 powi (53 + e0)" .
  have "2 powi ?k < (2::real) powi (53 + e0)"
    using floor_log2_bounds(1) [OF False] up by linarith
  then have "?k < 53 + e0" by (simp only: two_powi_less_iff)
  then have le: "?e \<le> e0" using e0 by (simp add: ulp_exp_def)
  have "r / 2 powi ?e = of_int m * 2 powi (e0 - ?e)"
    by (simp add: r power_int_diff)
  also have "\<dots> = of_int (m * 2 ^ nat (e0 - ?e))"
    using le by (simp add: power_int_nonneg_exp)
  finally have q: "r / 2 powi ?e = of_int (m * 2 ^ nat (e0 - ?e))" .
  have v: "of_int (round_even (r / 2 powi ?e)) * 2 powi ?e = r"
    unfolding q round_even_of_int unfolding q [symmetric] by simp
  have "\<bar>r\<bar> < huge"
    unfolding huge_def using up e0 two_powi_le_iff [of "53 + e0" 1024] by linarith
  then show ?thesis using False by (simp add: rnd_def Let_def v)
qed

lemma ulp_exp_quotient_bound:
  assumes "r \<noteq> 0"
  shows "\<bar>r / 2 powi ulp_exp r\<bar> < 2 ^ 53"
proof -
  let ?k = "\<lfloor>log 2 \<bar>r\<bar>\<rfloor>"
  have "?k + 1 \<le> 53 + ulp_exp r" by (simp add: ulp_exp_def)
  then have "(2::real) powi (?k + 1) \<le> 2 powi (53 + ulp_exp r)" by (simp only: two_powi_le_iff)
  with floor_log2_bounds(2) [OF assms] have "\<bar>r\<bar> < 2 powi (53 + ulp_exp r)" by linarith
  also have "\<dots> = 2 ^ 53 * 2 powi ulp_exp r" by (simp add: power_int_add)
  finally show ?thesis by (simp add: abs_divide power_int_abs pos_divide_less_eq)
qed

lemma rnd_Fin_D:
  assumes "rnd r = Fin v" and "r \<noteq> 0"
  shows "v = of_int (round_even (r / 2 powi ulp_exp r)) * 2 powi ulp_exp r" and "\<bar>v\<bar> < huge"
  using assms by (auto simp add: rnd_def Let_def split: if_splits)

lemma rnd_representable:
  assumes "rnd r = Fin v"
  shows "representable v"
proof (cases "r = 0")
  case True
  with assms have "v = of_int 0 * 2 powi 0" by (simp add: rnd_def)
  then show ?thesis unfolding representable_def by (intro exI [of _ 0] conjI) simp_all
next
  case False
  let ?e = "ulp_exp r"
  let ?n = "round_even (r / 2 powi ?e)"
  from rnd_Fin_D [OF assms False]
  have v: "v = of_int ?n * 2 powi ?e" and small: "\<bar>v\<bar> < 2 powi 1024"
    by (simp_all only: huge_def)
  have e_lo: "- 1074 \<le> ?e" by (simp add: ulp_exp_def)
  have "\<bar>r / 2 powi ?e\<bar> \<le> of_int (2 ^ 53)"
    using ulp_exp_quotient_bound [OF False] by simp
  then have n: "\<bar>?n\<bar> \<le> 2 ^ 53" by (rule round_even_abs_le)
  have absv: "\<bar>v\<bar> = of_int \<bar>?n\<bar> * 2 powi ?e" by (simp add: v abs_mult power_int_abs)
  show ?thesis
  proof (cases "\<bar>?n\<bar> = 2 ^ 53")
    case True
    then have "\<bar>v\<bar> = 2 powi (53 + ?e)" by (simp add: absv power_int_add)
    with small have "53 + ?e < 1024" by (simp only: two_powi_less_iff)
    moreover have pm: "?n = 2 ^ 53 \<or> ?n = - (2 ^ 53)" using True by linarith
    moreover have "v = of_int (?n div 2) * 2 powi (?e + 1)"
    proof -
      from pm have "real_of_int ?n = of_int (?n div 2) * 2" by auto
      then show ?thesis by (simp add: v power_int_add)
    qed
    moreover have "\<bar>?n div 2\<bar> < 2 ^ 53" using pm by auto
    ultimately show ?thesis
      unfolding representable_def using e_lo
      by (intro exI [of _ "?n div 2"] exI [of _ "?e + 1"]) simp
  next
    case False
    with n have n': "\<bar>?n\<bar> < 2 ^ 53" by linarith
    have "?e \<le> 971"
    proof (rule ccontr)
      assume "\<not> ?e \<le> 971"
      then have big: "972 \<le> ?e" by simp
      then have e: "?e = \<lfloor>log 2 \<bar>r\<bar>\<rfloor> - 52" by (simp add: ulp_exp_def)
      have "2 powi (52 + ?e) \<le> \<bar>r\<bar>"
        using floor_log2_bounds(1) [OF \<open>r \<noteq> 0\<close>] by (simp add: e)
      then have "2 ^ 52 \<le> \<bar>r / 2 powi ?e\<bar>"
        by (simp add: abs_divide power_int_abs pos_le_divide_eq power_int_add)
      then have "of_int (2 ^ 52) \<le> \<bar>r / 2 powi ?e\<bar>" by simp
      then have "2 ^ 52 \<le> \<bar>?n\<bar>"
        using round_even_between [of "r / 2 powi ?e"]
        by (simp add: abs_if le_floor_iff ceiling_le_iff split: if_splits) linarith+
      then have "(2::real) ^ 52 \<le> of_int \<bar>?n\<bar>"
        by (metis of_int_le_iff of_int_numeral of_int_power)
      then have "2 ^ 52 * 2 powi ?e \<le> \<bar>v\<bar>"
        unfolding absv by (intro mult_right_mono) simp_all
      moreover have "(2::real) powi 1024 \<le> 2 powi (52 + ?e)"
        using big by (simp only: two_powi_le_iff)
      ultimately show False using small by (simp add: power_int_add)
    qed
    with n' e_lo v show ?thesis unfolding representable_def by blast
  qed
qed

lemma ulp_exp_binade:
  assumes "2 powi k \<le> \<bar>r\<bar>" and "\<bar>r\<bar> < 2 powi (k + 1)"
  shows "ulp_exp r = max (k - 52) (- 1074)"
  by (simp add: ulp_exp_def floor_log2_eq [OF assms])

lemma rnd_binade:
  assumes "2 powi k \<le> \<bar>r\<bar>" and "\<bar>r\<bar> < 2 powi (k + 1)"
    and "e = max (k - 52) (- 1074)"
    and "round_even (r / 2 powi e) = n"
    and "\<bar>of_int n * 2 powi e\<bar> < huge"
  shows "rnd r = Fin (of_int n * 2 powi e)"
proof -
  have "0 < (2::real) powi k" by simp
  then have "0 < \<bar>r\<bar>" using assms(1) by linarith
  then have "r \<noteq> 0" by simp
  moreover have "ulp_exp r = e" using ulp_exp_binade [OF assms(1,2)] assms(3) by simp
  ultimately show ?thesis using assms(4,5) by (simp add: rnd_def Let_def)
qed

lemma round_even_mono_int: "of_int N \<le> q \<Longrightarrow> N \<le> round_even q"
  using round_even_between [of q] le_floor_iff [of N q] by linarith

lemma rnd_overflow:
  assumes "huge \<le> r"
  shows "rnd r = PInf"
proof -
  let ?k = "\<lfloor>log 2 \<bar>r\<bar>\<rfloor>"
  let ?e = "ulp_exp r"
  have "0 < huge" by (simp add: huge_def)
  then have pos: "0 < r" using assms by linarith
  then have nz: "r \<noteq> 0" by simp
  have "2 powi 1024 < (2::real) powi (?k + 1)"
    using floor_log2_bounds(2) [OF nz] assms pos by (simp add: huge_def)
  then have "1024 < ?k + 1" by (simp only: two_powi_less_iff)
  then have e: "?e = ?k - 52" "972 \<le> ?e" unfolding ulp_exp_def by linarith+
  have "2 powi (52 + ?e) \<le> r"
    using floor_log2_bounds(1) [OF nz] pos by (simp add: e(1))
  then have "of_int (2 ^ 52) \<le> r / 2 powi ?e"
    by (simp add: pos_le_divide_eq power_int_add)
  then have "2 ^ 52 \<le> round_even (r / 2 powi ?e)" by (rule round_even_mono_int)
  then have "(2::real) ^ 52 \<le> of_int (round_even (r / 2 powi ?e))"
    by (metis of_int_le_iff of_int_numeral of_int_power)
  then have "(2::real) ^ 52 * 2 powi ?e \<le> of_int (round_even (r / 2 powi ?e)) * 2 powi ?e"
    by (intro mult_right_mono) simp_all
  moreover have "(2::real) powi 1024 \<le> 2 powi (52 + ?e)"
    using e(2) by (simp only: two_powi_le_iff)
  moreover have "(2::real) ^ 52 * 2 powi ?e = 2 powi (52 + ?e)" by (simp add: power_int_add)
  ultimately have "huge \<le> of_int (round_even (r / 2 powi ?e)) * 2 powi ?e"
    unfolding huge_def by linarith
  then have "huge \<le> \<bar>of_int (round_even (r / 2 powi ?e)) * 2 powi ?e\<bar>" by linarith
  then show ?thesis using nz pos by (simp add: rnd_def Let_def)
qed


lemma rnd_0 [simp]: "rnd 0 = Fin 0"
  by (simp add: rnd_def)

lemma representable_of_int: "\<bar>m\<bar> < 2 ^ 53 \<Longrightarrow> representable (of_int m)"
  unfolding representable_def by (intro exI [of _ m] exI [of _ 0]) simp

lemma rnd_of_int: "\<bar>m\<bar> < 2 ^ 53 \<Longrightarrow> rnd (of_int m) = Fin (of_int m)"
  by (intro rnd_exact representable_of_int)

lemma rnd_numeral: "(numeral w :: int) < 2 ^ 53 \<Longrightarrow> rnd (numeral w) = Fin (numeral w)"
  using rnd_of_int [of "numeral w"] by simp

lemma rnd_neg_numeral:
  "(numeral w :: int) < 2 ^ 53 \<Longrightarrow> rnd (- numeral w) = Fin (- numeral w)"
  using rnd_of_int [of "- numeral w"] by simp

lemma rnd_1 [simp]: "rnd 1 = Fin 1"
  using rnd_of_int [of 1] by simp

lemma rnd_idem: "rnd r = Fin v \<Longrightarrow> rnd v = Fin v"
  by (intro rnd_exact rnd_representable)








section \<open>NaN in the arithmetic\<close>

lemma NaN_absorbs [simp]:
  "NaN + b = NaN" "a + NaN = NaN" "NaN - b = NaN" "a - NaN = NaN" "NaN * b = NaN" "a * NaN = NaN"
  by (cases a; cases b; simp add: minus_double_def)+

lemma NaN_compares_false [simp]:
  "\<not> NaN \<le> b" "\<not> a \<le> NaN" "\<not> NaN < b" "\<not> a < NaN"
  by (cases a; cases b; simp)+





lemma clamp_double:
  assumes "nonLinear p = 1"
  shows "\<not> clamp p v < (0::double)" and "clamp p v = NaN \<or> 0 \<le> clamp p v"
  using assms by (cases v; simp add: clamp_def zero_double_def)+

lemma zero_plus_product: "(0::double) + a * b = a * b"
proof (cases "a * b")
  case (Fin v)
  then obtain a' b' where ab: "a = Fin a'" "b = Fin b'"
    by (cases a; cases b; simp split: if_splits)
  with Fin have "rnd (a' * b') = Fin v" by simp
  then have "rnd v = Fin v" by (rule rnd_idem)
  with Fin show ?thesis by (simp add: zero_double_def)
qed (simp_all add: zero_double_def)

section \<open>The example configurations, evaluated\<close>

lemma upt2: "[0..<2] = [0, Suc 0]"
  by (simp add: upt_rec)

lemmas eval_defs = init_trial_def updated_cell_def sum_dummy_def clamp_def crossers_def
  arrays_sized_def upt2

lemma late_fields:
  "s late_p = 0" "dt late_p = 1/2" "nTrials late_p = 1" "maxiter late_p = 2"
  by (simp_all add: late_p_def)

lemma late_step1:
  "lca_step late_p 0 rng (init_trial late_p 0) =
     \<lparr>x = [1/2, 0], dummy = [0, 0], iter = 1, resp = - 1, winner = False, drawn = 2\<rparr>"
  by (subst lca_step_eq) (simp_all add: late_p_def eval_defs Let_def)

lemma late_step2:
  "lca_step late_p 0 rng
     \<lparr>x = [1/2, 0], dummy = [0, 0], iter = 1, resp = - 1, winner = False, drawn = 2\<rparr> =
     \<lparr>x = [1, 0], dummy = [0, 0], iter = 2, resp = 1, winner = True, drawn = 4\<rparr>"
  by (subst lca_step_eq) (simp_all add: late_p_def eval_defs Let_def)

lemma late_trial:
  "run_trial late_p 0 rng 0 =
     \<lparr>x = [1, 0], dummy = [0, 0], iter = 2, resp = 1, winner = True, drawn = 4\<rparr>"
  unfolding run_trial_def
  apply (subst trial_loop.simps)
  apply (simp only: late_step1 Let_def)
  apply (subst trial_loop.simps)
  apply (simp only: late_step2 Let_def)
  apply (simp add: late_fields)
  done

lemma late_states:
  "trial_states late_p rng =
     [\<lparr>x = [1, 0], dummy = [0, 0], iter = 2, resp = 1, winner = True, drawn = 4\<rparr>]"
  by (simp add: trial_states_def noise_factor_def late_fields late_trial)

lemma late_result: "simulateLCA late_p rng = ([1], [3/4])"
  by (simp add: simulateLCA_def late_states reaction_time_def late_fields)

lemma idle_fields:
  "s idle_p = 0" "dt idle_p = 1/2" "nTrials idle_p = 2" "maxiter idle_p = 2"
  by (simp_all add: idle_p_def)

lemma idle_step1:
  "lca_step idle_p 0 rng (init_trial idle_p k) =
     \<lparr>x = [0, 0], dummy = [0, 0], iter = 1, resp = - 1, winner = False, drawn = k + 2\<rparr>"
  by (subst lca_step_eq) (simp_all add: idle_p_def eval_defs Let_def)

lemma idle_step2:
  "lca_step idle_p 0 rng
     \<lparr>x = [0, 0], dummy = [0, 0], iter = 1, resp = - 1, winner = False, drawn = k + 2\<rparr> =
     \<lparr>x = [0, 0], dummy = [0, 0], iter = 2, resp = - 1, winner = False, drawn = k + 4\<rparr>"
  by (subst lca_step_eq) (simp_all add: idle_p_def eval_defs Let_def)

lemma idle_trial:
  "run_trial idle_p 0 rng k =
     \<lparr>x = [0, 0], dummy = [0, 0], iter = 2, resp = - 1, winner = False, drawn = k + 4\<rparr>"
  unfolding run_trial_def
  apply (subst trial_loop.simps)
  apply (simp only: idle_step1 Let_def)
  apply (subst trial_loop.simps)
  apply (simp only: idle_step2 Let_def)
  apply (simp add: idle_fields)
  done

lemma idle_states:
  "trial_states idle_p rng =
     [\<lparr>x = [0, 0], dummy = [0, 0], iter = 2, resp = - 1, winner = False, drawn = 4\<rparr>,
      \<lparr>x = [0, 0], dummy = [0, 0], iter = 2, resp = - 1, winner = False, drawn = 8\<rparr>]"
  by (simp add: trial_states_def noise_factor_def idle_fields idle_trial numeral_2_eq_2)

lemma idle_result: "simulateLCA idle_p rng = ([- 1, - 1], [3/4, 3/4])"
  by (simp add: simulateLCA_def idle_states reaction_time_def idle_fields)

lemma upt1: "[0..<1] = [0]"
  by simp

lemma solo_fields:
  "s solo_p = 1" "dt solo_p = 1" "nTrials solo_p = 1" "maxiter solo_p = 3" "nAcc solo_p = 1"
  "Z solo_p = 2" "x0 solo_p = [4]"
  by (simp_all add: solo_p_def)

lemma solo_step1:
  "lca_step solo_p 1 ramp_draws (init_trial solo_p 0) =
     \<lparr>x = [4], dummy = [12], iter = 1, resp = 1, winner = True, drawn = 1\<rparr>"
  by (subst lca_step_eq) (simp_all add: solo_p_def eval_defs ramp_draws_def Let_def)

lemma solo_trial:
  "run_trial solo_p 1 ramp_draws 0 =
     \<lparr>x = [4], dummy = [12], iter = 1, resp = 1, winner = True, drawn = 1\<rparr>"
  unfolding run_trial_def
  apply (subst trial_loop.simps)
  apply (simp only: solo_step1 Let_def)
  apply simp
  done

lemma solo_states:
  "trial_states solo_p ramp_draws =
     [\<lparr>x = [4], dummy = [12], iter = 1, resp = 1, winner = True, drawn = 1\<rparr>]"
  by (simp add: trial_states_def noise_factor_def solo_fields solo_trial)

lemma solo_result: "simulateLCA solo_p ramp_draws = ([1], [1/2])"
  by (simp add: simulateLCA_def solo_states reaction_time_def solo_fields)

lemma upt3: "[0..<3] = [0, Suc 0, 2]"
  by (simp add: upt_rec)

lemma tie_update: "x (update_phase tie_p 0 rng (init_trial tie_p k)) = [1, 0, 1]"
  by (subst update_phase_eq) (simp_all add: tie_p_def eval_defs upt3)

lemma tie_crossers: "crossers tie_p [1, 0, 1] = [0, 2]"
  by (simp add: crossers_def tie_p_def upt3)

lemma race_fields:
  "nAcc race_p = 2" "dt race_p = 1" "kappa race_p = 1/2" "beta race_p = 1/4" "I race_p = [1, 2]"
  "x0 race_p = [4, 8]"
  by (simp_all add: race_p_def)

lemma race_init:
  "init_trial race_p k =
     \<lparr>x = [4, 8], dummy = [4, 8], iter = 0, resp = - 1, winner = False, drawn = k\<rparr>"
  by (simp add: init_trial_def race_fields upt2)







lemma solo_init:
  "init_trial solo_p k = \<lparr>x = [4], dummy = [4], iter = 0, resp = - 1, winner = False, drawn = k\<rparr>"
  by (simp add: init_trial_def solo_fields)

lemma representableI:
  "r = of_int m * 2 powi e \<Longrightarrow> \<bar>m\<bar> < 2 ^ 53 \<Longrightarrow> - 1074 \<le> e \<Longrightarrow> e \<le> 971 \<Longrightarrow> representable r"
  unfolding representable_def by blast

lemma big_representable: "representable big"
proof (rule representableI)
  have "(2::real) powi 1023 = 2 powi 52 * 2 powi 971"
    using power_int_add [of "2::real" 52 971] by simp
  moreover have "(2::real) powi 52 = of_int (2 ^ 52)" by simp
  ultimately show "big = of_int (2 ^ 52) * 2 powi 971" by (simp only: big_def)
  show "\<bar>2 ^ 52 :: int\<bar> < 2 ^ 53" by simp
qed simp_all

lemma twice_big_overflows: "rnd (2 * big) = PInf"
proof (rule rnd_overflow)
  show "huge \<le> 2 * big"
    unfolding huge_def big_def using power_int_add [of "2::real" 1 1023] by simp
qed

lemma burst_factor: "noise_factor64 (dt burst_p) (s burst_p) = Fin 0"
  by (simp add: burst_p_def noise_factor64_def)

lemmas eval64 = zero_double_def minus_double_def rnd_numeral rnd_neg_numeral

lemma burst_step1:
  "lca_step burst_p (Fin 0) unit_draws (init_trial burst_p 0) =
     \<lparr>x = [NaN, Fin 0], dummy = [PInf, Fin 0], iter = 1, resp = - 1, winner = False, drawn = 2\<rparr>"
  by (subst lca_step_eq)
    (simp_all add: burst_p_def eval_defs Let_def eval64 unit_draws_def twice_big_overflows)

lemma burst_fields: "nAcc burst_p = 2" "maxiter burst_p = 4" "Z burst_p = Fin 4"
  "nonLinear burst_p = 1" "s burst_p = Fin 0"
  by (simp_all add: burst_p_def)


lemma wide_representable: "representable wide"
  by (rule representableI [of _ 1 60]) (simp_all add: wide_def)

lemma four_wide_exact: "rnd (4 * wide) = Fin (4 * wide)"
  by (rule rnd_exact, rule representableI [of _ 1 62]) (simp_all add: wide_def)

lemma one_minus_four_wide: "rnd (1 - 4 * wide) = Fin (- (4 * wide))"
proof -
  have "rnd (1 - 4 * wide) = Fin (of_int (- (2 ^ 53)) * 2 powi 9)"
  proof (rule rnd_binade [where k = 61])
    show "2 powi 61 \<le> \<bar>1 - 4 * wide\<bar>" by (simp add: wide_def)
    show "\<bar>1 - 4 * wide\<bar> < 2 powi (61 + 1)" by (simp add: wide_def)
    show "(9::int) = max (61 - 52) (- 1074)" by simp
    show "round_even ((1 - 4 * wide) / 2 powi 9) = - (2 ^ 53)"
      by (simp add: round_even_def wide_def Let_def)
    have "\<bar>of_int (- (2 ^ 53)) * 2 powi 9\<bar> = (2::real) powi 62" by simp
    also have "\<dots> < 2 powi 1024" by (simp only: two_powi_less_iff)
    finally show "\<bar>of_int (- (2 ^ 53)) * 2 powi 9\<bar> < huge" by (simp only: huge_def)
  qed
  also have "of_int (- (2 ^ 53)) * 2 powi 9 = - (4 * wide)" by (simp add: wide_def)
  finally show ?thesis .
qed

lemma lone_factor: "noise_factor64 (dt lone_p) (s lone_p) = Fin 1"
  by (simp add: lone_p_def noise_factor64_def)

lemma lone_step:
  "lca_step lone_p (Fin 1) unit_draws (init_trial lone_p 0) =
     \<lparr>x = [Fin 2], dummy = [Fin 12], iter = 1, resp = 1, winner = True, drawn = 1\<rparr>"
  by (subst lca_step_eq)
    (simp_all add: lone_p_def eval_defs Let_def eval64 unit_draws_def)

lemma lone_wide_step:
  "lca_step (lone_p\<lparr>beta := Fin wide\<rparr>) (Fin 1) unit_draws
       (init_trial (lone_p\<lparr>beta := Fin wide\<rparr>) 0) =
     \<lparr>x = [Fin 1], dummy = [Fin (4 * wide)], iter = 1, resp = - 1, winner = False, drawn = 1\<rparr>"
  by (subst lca_step_eq)
    (simp_all add: lone_p_def eval_defs Let_def eval64 unit_draws_def four_wide_exact
      one_minus_four_wide)

lemma lone_trial:
  "run_trial lone_p (Fin 1) unit_draws 0 =
     \<lparr>x = [Fin 2], dummy = [Fin 12], iter = 1, resp = 1, winner = True, drawn = 1\<rparr>"
  unfolding run_trial_def
  apply (subst trial_loop.simps)
  apply (simp only: lone_step Let_def)
  apply simp
  done

lemma lone_wide_trial:
  "run_trial (lone_p\<lparr>beta := Fin wide\<rparr>) (Fin 1) unit_draws 0 =
     \<lparr>x = [Fin 1], dummy = [Fin (4 * wide)], iter = 1, resp = - 1, winner = False, drawn = 1\<rparr>"
  unfolding run_trial_def
  apply (subst trial_loop.simps)
  apply (simp only: lone_wide_step Let_def)
  apply (simp add: lone_p_def)
  done

lemma lone_init:
  "init_trial lone_p k =
     \<lparr>x = [Fin 4], dummy = [Fin 4], iter = 0, resp = - 1, winner = False, drawn = k\<rparr>"
  by (simp add: init_trial_def lone_p_def)

lemma lone_fields:
  "nAcc lone_p = 1" "dt lone_p = Fin 1" "beta lone_p = Fin 3" "kappa lone_p = Fin 1"
  "I lone_p = [Fin 1]"
  by (simp_all add: lone_p_def)

section \<open>The noise factor\<close>




section \<open>The sentinel and the reaction time\<close>

text \<open>
  C1, as stated: for every trial, \<open>response[i] = -1\<close> if and only if
  \<open>reactionTime[i] = maxIter * dt - dt/2\<close>. In \<open>late_p\<close> accumulator 1 crosses in step 2
  of 2: the response is 1 and the reaction time is the time-out value, so the
  equivalence fails from right to left.
\<close>

theorem sentinel_iff_fails_on_last_step_crossing:
  "\<not> (fst (simulateLCA late_p zero_draws) ! 0 = - 1 \<longleftrightarrow>
      snd (simulateLCA late_p zero_draws) ! 0
        = of_int (maxiter late_p) * dt late_p - dt late_p / 2)"
  by (simp add: late_result late_fields)

text \<open>
  C1, amended: with \<open>maxiter \<ge> 1\<close>, every trial \<open>i < nTrials\<close> ends with a step taken from
  a state \<open>st\<close> in which the trial entered the loop body with no winner yet and with
  \<open>iter < maxiter\<close>. The response is \<open>-1\<close> exactly when no accumulator is at or above
  \<open>Z\<close> after the update of that last step; then that step is step \<open>maxiter\<close> and the
  reaction time is \<open>maxiter * dt - dt/2\<close>. Otherwise the response is the highest index
  that crossed in that last step, counted from 1, and the reaction time is
  \<open>(iter + 1) * dt - dt/2\<close> for the counter \<open>iter\<close> of \<open>st\<close>. The converse of the first
  implication is not claimed: a crossing in step \<open>maxiter\<close> gives the time-out reaction
  time.
\<close>

theorem response_comes_from_the_last_step:
  assumes "1 \<le> maxiter p" and "i < nat (nTrials p)"
  shows "\<exists>k st. trial_reach p (noise_factor (dt p) (s p)) rng k st
          \<and> trial_states p rng ! i = lca_step p (noise_factor (dt p) (s p)) rng st
          \<and> iter st < maxiter p
          \<and> (fst (simulateLCA p rng) ! i = - 1 \<longleftrightarrow>
               crossers p (x (update_phase p (noise_factor (dt p) (s p)) rng st)) = [])
          \<and> (fst (simulateLCA p rng) ! i = - 1 \<longrightarrow>
               iter st + 1 = maxiter p
               \<and> snd (simulateLCA p rng) ! i = of_int (maxiter p) * dt p - dt p / 2)
          \<and> (fst (simulateLCA p rng) ! i \<noteq> - 1 \<longrightarrow>
               fst (simulateLCA p rng) ! i
                 = int (Max (set (crossers p
                     (x (update_phase p (noise_factor (dt p) (s p)) rng st))))) + 1
               \<and> snd (simulateLCA p rng) ! i = of_int (iter st + 1) * dt p - dt p / 2)"
proof -
  let ?rhs = "noise_factor (dt p) (s p)"
  from trial_states_nth [OF assms(2)] obtain k
    where fin: "trial_states p rng ! i = run_trial p ?rhs rng k" ..
  from run_trial_last_step [of p ?rhs rng k]
  obtain st where reach: "trial_reach p ?rhs rng k st"
    and last: "run_trial p ?rhs rng k = lca_step p ?rhs rng st"
    and exit: "\<not> (iter (lca_step p ?rhs rng st) < maxiter p
                   \<and> winner (lca_step p ?rhs rng st) = False)"
    by blast
  let ?cs = "crossers p (x (update_phase p ?rhs rng st))"
  note nw = reach_no_winner [OF reach]
  have sz: "arrays_sized p st" using reach by (rule reach_arrays_sized)
  have w: "winner st = False" and r: "resp st = - 1" using nw by simp_all
  note out = step_outcome [OF sz w r, of ?rhs rng]
  have it: "iter st < maxiter p" using nw assms(1) by auto
  have resp_i: "fst (simulateLCA p rng) ! i = resp (lca_step p ?rhs rng st)"
    by (simp add: simulateLCA_nth(1) [OF assms(2)] fin last)
  have rt_i: "snd (simulateLCA p rng) ! i = of_int (iter st + 1) * dt p - dt p / 2"
    by (simp add: simulateLCA_nth(2) [OF assms(2)] fin last reaction_time_def iter_lca_step)
  have timeout: "iter st + 1 = maxiter p" if "?cs = []"
    using that exit it out(1) by (simp add: iter_lca_step)
  have a: "fst (simulateLCA p rng) ! i = - 1 \<longleftrightarrow> ?cs = []"
    unfolding resp_i by (rule out(3))
  have b: "iter st + 1 = maxiter p
           \<and> snd (simulateLCA p rng) ! i = of_int (maxiter p) * dt p - dt p / 2"
    if "fst (simulateLCA p rng) ! i = - 1"
    using that a timeout rt_i by simp
  have c: "fst (simulateLCA p rng) ! i = int (Max (set ?cs)) + 1
           \<and> snd (simulateLCA p rng) ! i = of_int (iter st + 1) * dt p - dt p / 2"
    if "fst (simulateLCA p rng) ! i \<noteq> - 1"
    using that a rt_i out(2) by (simp add: resp_i)
  from reach fin last it a b c show ?thesis by (intro exI [of _ k] exI [of _ st]) simp
qed

theorem response_comes_from_the_last_step_witness:
  "(1 \<le> maxiter idle_p \<and> 1 < nat (nTrials idle_p)
     \<and> fst (simulateLCA idle_p ramp_draws) ! 1 = - 1
     \<and> snd (simulateLCA idle_p ramp_draws) ! 1 = 3/4
     \<and> of_int (maxiter idle_p) * dt idle_p - dt idle_p / 2 = 3/4)
   \<and> (1 \<le> maxiter late_p \<and> 0 < nat (nTrials late_p)
     \<and> fst (simulateLCA late_p ramp_draws) ! 0 = 1
     \<and> iter (trial_states late_p ramp_draws ! 0) = maxiter late_p
     \<and> snd (simulateLCA late_p ramp_draws) ! 0 = 3/4)"
  using response_comes_from_the_last_step [of idle_p 1 ramp_draws]
    response_comes_from_the_last_step [of late_p 0 ramp_draws]
  by (simp add: late_fields late_result late_states idle_fields idle_result idle_states)

text \<open>
  C4. For every trial \<open>i < nTrials\<close>, the reaction time written is
  \<open>iter * dt - dt/2\<close> for the value of \<open>iter\<close> at the end of the trial's loop, whether or
  not an accumulator crossed; a trial without a response (\<open>maxiter \<ge> 1\<close>) ended with
  \<open>iter = maxiter\<close>, so its reaction time is \<open>maxiter * dt - dt/2\<close>.
\<close>

theorem reaction_time_from_final_iter:
  assumes "1 \<le> maxiter p" and "i < nat (nTrials p)"
  shows "snd (simulateLCA p rng) ! i = of_int (iter (trial_states p rng ! i)) * dt p - dt p / 2
       \<and> (fst (simulateLCA p rng) ! i = - 1 \<longrightarrow>
            iter (trial_states p rng ! i) = maxiter p
            \<and> snd (simulateLCA p rng) ! i = of_int (maxiter p) * dt p - dt p / 2)"
proof -
  from trial_states_nth [OF assms(2)] obtain k
    where fin: "trial_states p rng ! i = run_trial p (noise_factor (dt p) (s p)) rng k" ..
  note out = run_trial_outcome [of p "noise_factor (dt p) (s p)" rng k, folded fin]
  note nth = simulateLCA_nth [OF assms(2), of rng]
  have "iter (trial_states p rng ! i) = maxiter p" if "fst (simulateLCA p rng) ! i = - 1"
    using that out(3) out(4) assms(1) by (simp add: nth)
  then show ?thesis by (simp add: nth reaction_time_def)
qed

theorem reaction_time_from_final_iter_witness:
  "(1 \<le> maxiter idle_p \<and> 1 < nat (nTrials idle_p)
     \<and> fst (simulateLCA idle_p ramp_draws) ! 1 = - 1
     \<and> iter (trial_states idle_p ramp_draws ! 1) = 2
     \<and> snd (simulateLCA idle_p ramp_draws) ! 1 = 2 * (1/2) - (1/2) / 2)
   \<and> (1 \<le> maxiter solo_p \<and> 0 < nat (nTrials solo_p)
     \<and> fst (simulateLCA solo_p ramp_draws) ! 0 = 1
     \<and> iter (trial_states solo_p ramp_draws ! 0) = 1
     \<and> snd (simulateLCA solo_p ramp_draws) ! 0 = 1 * 1 - 1 / 2)"
  using reaction_time_from_final_iter [of idle_p 1 ramp_draws]
    reaction_time_from_final_iter [of solo_p 0 ramp_draws]
  by (simp add: solo_fields solo_result solo_states idle_fields idle_result idle_states)

section \<open>The do-while loop\<close>



section \<open>The tie-break\<close>

text \<open>
  C3. Take a state in which a trial enters the loop body, and the values of \<open>x\<close> after
  the update of that step. If one or more of them (in particular two or more) are at or
  above \<open>Z\<close>, the step ends the trial, and the response reported is the highest index
  among them, counted from 1.
\<close>

theorem highest_index_wins:
  assumes "trial_reach p rhs rng k st"
    and "crossers p (x (update_phase p rhs rng st)) \<noteq> []"
  shows "run_trial p rhs rng k = lca_step p rhs rng st
       \<and> resp (run_trial p rhs rng k)
           = int (Max (set (crossers p (x (update_phase p rhs rng st))))) + 1"
proof -
  let ?u = "update_phase p rhs rng st"
  have sz: "arrays_sized p st" using assms(1) by (rule reach_arrays_sized)
  have len: "length (x ?u) = nAcc p" by (simp add: update_phase_eq [OF sz])
  have step: "lca_step p rhs rng st = check_winner p ?u" by (simp add: lca_step_def)
  have "last (crossers p (x ?u)) = Max (set (crossers p (x ?u)))"
    using assms(2) unfolding crossers_def by (rule last_filter_upt_Max)
  then have r: "resp (lca_step p rhs rng st) = int (Max (set (crossers p (x ?u)))) + 1"
    using assms(2) by (simp add: step check_winner_eq [OF len])
  have w: "winner (lca_step p rhs rng st)"
    using assms(2) by (simp add: step check_winner_eq [OF len])
  have "trial_loop p rhs rng st = lca_step p rhs rng st"
    using w by (subst trial_loop.simps) (simp add: Let_def)
  then have "run_trial p rhs rng k = lca_step p rhs rng st"
    using reach_trial_loop [OF assms(1)] by simp
  with r show ?thesis by simp
qed

theorem highest_index_wins_witness:
  "trial_reach tie_p 0 zero_draws 0 (init_trial tie_p 0)
   \<and> crossers tie_p (x (update_phase tie_p 0 zero_draws (init_trial tie_p 0))) = [0, 2]
   \<and> resp (run_trial tie_p 0 zero_draws 0) = 3"
  using highest_index_wins [of tie_p 0 zero_draws 0 "init_trial tie_p 0"]
    trial_reach.enter [of tie_p 0 zero_draws 0]
  by (auto simp add: tie_update tie_crossers)

section \<open>The update of the accumulators\<close>

text \<open>
  C2. In every step of every trial, each accumulator \<open>z\<close> gets
  \<open>x[z] + dt*I[z] - dt*kappa*x[z] - sum + contribution[z] + rhs * N\<close>, where every
  \<open>x\<close> on the right is the value at the start of the step, \<open>contribution[z]\<close> is
  \<open>x[z]*dt*beta\<close>, \<open>sum\<close> is the sum of the contributions, and \<open>N\<close> is the draw number
  \<open>z\<close> of the step. The model updates \<open>x\<close> in place as the code does; no cell's update
  reads a cell already updated in the step.
\<close>

theorem update_reads_the_pre_step_values:
  fixes p :: "real lca_params"
  assumes "trial_reach p rhs rng k st" and "z < nAcc p"
  shows "x (update_phase p rhs rng st) ! z =
           x st ! z + dt p * I p ! z - dt p * kappa p * x st ! z
             - (\<Sum>a<nAcc p. x st ! a * dt p * beta p)
             + x st ! z * dt p * beta p + rhs * rng (drawn st + z)
       \<and> dummy (update_phase p rhs rng st) ! z = x st ! z * dt p * beta p
       \<and> sum_dummy p (dummy (update_phase p rhs rng st)) = (\<Sum>a<nAcc p. x st ! a * dt p * beta p)"
proof -
  have sz: "arrays_sized p st" using assms(1) by (rule reach_arrays_sized)
  have "x (update_phase p rhs rng st) ! z = updated_cell p rhs rng st z"
    using assms(2) by (simp add: update_phase_eq [OF sz])
  also have "\<dots> = x st ! z + dt p * I p ! z - dt p * kappa p * x st ! z
             - (\<Sum>a<nAcc p. x st ! a * dt p * beta p)
             + x st ! z * dt p * beta p + rhs * rng (drawn st + z)"
    unfolding updated_cell_def sum_dummy_contributions by (simp only: mult.commute mult.left_commute)
  finally have upd: "x (update_phase p rhs rng st) ! z =
           x st ! z + dt p * I p ! z - dt p * kappa p * x st ! z
             - (\<Sum>a<nAcc p. x st ! a * dt p * beta p)
             + x st ! z * dt p * beta p + rhs * rng (drawn st + z)" .
  have dum: "dummy (update_phase p rhs rng st) ! z = x st ! z * dt p * beta p"
    using assms(2) by (simp add: update_phase_eq [OF sz])
  have "dummy (update_phase p rhs rng st) = map (\<lambda>a. x st ! a * dt p * beta p) [0..<nAcc p]"
    by (simp add: update_phase_eq [OF sz])
  then have "sum_dummy p (dummy (update_phase p rhs rng st))
               = (\<Sum>a<nAcc p. x st ! a * dt p * beta p)"
    by (simp only: sum_dummy_contributions)
  with upd dum show ?thesis by blast
qed

theorem update_reads_the_pre_step_values_witness:
  "trial_reach race_p 2 ramp_draws 0 (init_trial race_p 0) \<and> 1 < nAcc race_p
   \<and> x (update_phase race_p 2 ramp_draws (init_trial race_p 0)) ! 1 = 9
   \<and> dummy (update_phase race_p 2 ramp_draws (init_trial race_p 0)) ! 1 = 2
   \<and> sum_dummy race_p (dummy (update_phase race_p 2 ramp_draws (init_trial race_p 0))) = 3"
  using update_reads_the_pre_step_values [of race_p 2 ramp_draws 0 "init_trial race_p 0" 1]
    trial_reach.enter [of race_p 2 ramp_draws 0]
  by (simp add: race_fields race_init ramp_draws_def numeral_2_eq_2)

section \<open>The clamp\<close>

text \<open>
  C8, as stated: with \<open>nonLinear = true\<close> and \<open>s = 0\<close>, after the clamp at the end of each
  step every \<open>x[z] \<ge> 0\<close>. In \<open>burst_p\<close> (finite arguments, \<open>nonLinear = 1\<close>, \<open>s = 0\<close>) the
  inhibition term overflows, accumulator 1 becomes \<open>- \<infinity> + \<infinity>\<close>, which is NaN, the test
  \<open>x[z] < 0\<close> of the clamp is false for it, and \<open>NaN \<ge> 0\<close> is false.
\<close>

theorem clamp_leaves_nan_on_overflow:
  "nonLinear burst_p = 1 \<and> s burst_p = Fin 0 \<and> representable big
   \<and> \<not> 0 \<le> x (lca_step burst_p (noise_factor64 (dt burst_p) (s burst_p)) unit_draws
                   (init_trial burst_p 0)) ! 0"
proof -
  have "x (lca_step burst_p (noise_factor64 (dt burst_p) (s burst_p)) unit_draws
             (init_trial burst_p 0)) ! 0 = NaN"
    by (simp only: burst_factor burst_step1) simp
  then show ?thesis by (simp only: burst_fields big_representable) simp
qed

text \<open>
  C8, amended: with \<open>nonLinear = 1\<close>, after every step of a trial, and so at the end of
  the trial, no accumulator is below 0: each is at least 0 or is NaN. This holds in
  binary64 for every noise factor, \<open>s = 0\<close> included.
\<close>

theorem clamp_leaves_nonnegative_or_nan:
  fixes p :: "double lca_params"
  assumes "nonLinear p = 1" and "trial_reach p rhs rng k st" and "z < nAcc p"
  shows "\<not> x (lca_step p rhs rng st) ! z < 0
       \<and> (x (lca_step p rhs rng st) ! z = NaN \<or> 0 \<le> x (lca_step p rhs rng st) ! z)
       \<and> \<not> x (run_trial p rhs rng k) ! z < 0
       \<and> (x (run_trial p rhs rng k) ! z = NaN \<or> 0 \<le> x (run_trial p rhs rng k) ! z)"
proof -
  have step: "\<not> x (lca_step p rhs rng st') ! z < 0
        \<and> (x (lca_step p rhs rng st') ! z = NaN \<or> 0 \<le> x (lca_step p rhs rng st') ! z)"
    if "trial_reach p rhs rng k st'" for st'
  proof -
    have "arrays_sized p st'" using that by (rule reach_arrays_sized)
    then show ?thesis
      using assms(3) clamp_double [OF assms(1)] by (simp add: lca_step_eq Let_def)
  qed
  from run_trial_last_step [of p rhs rng k]
  obtain st' where "trial_reach p rhs rng k st'" "run_trial p rhs rng k = lca_step p rhs rng st'"
    by blast
  with step [OF assms(2)] step [of st'] show ?thesis by simp
qed

theorem clamp_leaves_nonnegative_or_nan_witness:
  "nonLinear burst_p = 1 \<and> trial_reach burst_p (Fin 0) unit_draws 0 (init_trial burst_p 0)
   \<and> (1::nat) < nAcc burst_p
   \<and> x (lca_step burst_p (Fin 0) unit_draws (init_trial burst_p 0)) = [NaN, Fin 0]
   \<and> (0::double) \<le> x (lca_step burst_p (Fin 0) unit_draws (init_trial burst_p 0)) ! 1
   \<and> \<not> x (run_trial burst_p (Fin 0) unit_draws 0) ! 1 < 0"
  using clamp_leaves_nonnegative_or_nan [of burst_p "Fin 0" unit_draws 0 "init_trial burst_p 0" 1]
    trial_reach.enter [of burst_p "Fin 0" unit_draws 0]
  by (simp add: burst_fields burst_step1)

section \<open>A single accumulator\<close>

text \<open>
  C5, as stated: with \<open>nAcc = 1\<close>, \<open>beta\<close> has no effect on the trajectory or outcome.
  In binary64 the code computes \<open>(y - c) + c\<close> with \<open>c = x * dt * beta\<close>, and the
  subtraction rounds: in \<open>lone_p\<close>, \<open>beta = 3\<close> gives the response 1, and \<open>beta = 2^60\<close>
  gives \<open>(1 - 2^62) + 2^62 = 0\<close>, a different accumulator value, and no response.
\<close>

theorem single_accumulator_beta_changes_outcome:
  "nAcc lone_p = 1 \<and> beta lone_p = Fin 3 \<and> representable wide
   \<and> resp (run_trial lone_p (noise_factor64 (dt lone_p) (s lone_p)) unit_draws 0) = 1
   \<and> resp (run_trial (lone_p\<lparr>beta := Fin wide\<rparr>)
              (noise_factor64 (dt lone_p) (s lone_p)) unit_draws 0) = - 1
   \<and> x (run_trial lone_p (noise_factor64 (dt lone_p) (s lone_p)) unit_draws 0)
       \<noteq> x (run_trial (lone_p\<lparr>beta := Fin wide\<rparr>)
              (noise_factor64 (dt lone_p) (s lone_p)) unit_draws 0)"
  by (simp only: lone_factor lone_trial lone_wide_trial) (simp add: lone_p_def wide_representable)

text \<open>
  C5, amended: with \<open>nAcc = 1\<close>, in every step of a trial the inhibition sum equals the
  single accumulator's own contribution \<open>c = x[0] * dt * beta\<close> (exactly, also in
  binary64), so the update is
  \<open>x[0] + dt * I[0] - kappa * x[0] * dt - c + c + rhs * N\<close>. In exact arithmetic
  \<open>- c + c\<close> cancels: the update is \<open>x[0] + dt * (I[0] - kappa * x[0]) + rhs * N\<close>, and
  replacing \<open>beta\<close> by any \<open>b\<close> changes neither the responses and reaction times of the
  batch nor the final accumulator values.
\<close>

theorem single_accumulator_sum_is_own_contribution:
  fixes p :: "real lca_params" and q :: "double lca_params"
  assumes "nAcc p = 1" and "trial_reach p rhs rng k st"
    and "nAcc q = 1" and "trial_reach q rhs' rng' k' st'"
  shows "sum_dummy q (dummy (update_phase q rhs' rng' st')) = x st' ! 0 * dt q * beta q
       \<and> dummy (update_phase q rhs' rng' st') = [x st' ! 0 * dt q * beta q]
       \<and> x (update_phase q rhs' rng' st')
           = [x st' ! 0 + dt q * I q ! 0 - kappa q * x st' ! 0 * dt q
                - x st' ! 0 * dt q * beta q + x st' ! 0 * dt q * beta q
                + rhs' * rng' (drawn st')]
       \<and> x (update_phase p rhs rng st)
           = [x st ! 0 + dt p * (I p ! 0 - kappa p * x st ! 0) + rhs * rng (drawn st)]
       \<and> simulateLCA (p\<lparr>beta := b\<rparr>) rng = simulateLCA p rng
       \<and> map x (trial_states (p\<lparr>beta := b\<rparr>) rng) = map x (trial_states p rng)"
proof -
  let ?p' = "p\<lparr>beta := b\<rparr>"
  have all: "list_all2 same_race (trial_states ?p' rng) (trial_states p rng)"
    using solo_trials_beta [OF assms(1)] by (simp add: trial_states_def)
  note maps = list_all2_same_race_maps [OF all]
  have "map (reaction_time ?p') (trial_states ?p' rng)
          = map (\<lambda>i. of_int i * dt p - dt p / 2) (map iter (trial_states ?p' rng))"
    by (simp add: reaction_time_def)
  also have "\<dots> = map (reaction_time p) (trial_states p rng)"
    unfolding maps(3) by (simp add: reaction_time_def)
  finally have sim: "simulateLCA ?p' rng = simulateLCA p rng"
    by (simp add: simulateLCA_def Let_def maps(2))
  have sz: "arrays_sized p st" using assms(2) by (rule reach_arrays_sized)
  have exact: "x (update_phase p rhs rng st)
          = [x st ! 0 + dt p * (I p ! 0 - kappa p * x st ! 0) + rhs * rng (drawn st)]"
    using assms(1) by (simp add: update_phase_eq [OF sz] solo_updated_cell [OF assms(1)])
  have sz': "arrays_sized q st'" using assms(4) by (rule reach_arrays_sized)
  have sm: "sum_dummy q [x st' ! 0 * dt q * beta q] = x st' ! 0 * dt q * beta q"
    using assms(3) by (simp add: sum_dummy_def zero_plus_product)
  have dm: "dummy (update_phase q rhs' rng' st') = [x st' ! 0 * dt q * beta q]"
    using assms(3) by (simp add: update_phase_eq [OF sz'])
  have xq: "x (update_phase q rhs' rng' st')
           = [x st' ! 0 + dt q * I q ! 0 - kappa q * x st' ! 0 * dt q
                - x st' ! 0 * dt q * beta q + x st' ! 0 * dt q * beta q
                + rhs' * rng' (drawn st')]"
    using assms(3) by (simp add: update_phase_eq [OF sz'] updated_cell_def sm)
  from sm dm xq exact sim maps(1) show ?thesis by simp
qed

theorem single_accumulator_sum_is_own_contribution_witness:
  "nAcc solo_p = 1 \<and> trial_reach solo_p 1 ramp_draws 0 (init_trial solo_p 0)
   \<and> nAcc lone_p = 1 \<and> trial_reach lone_p (Fin 1) unit_draws 0 (init_trial lone_p 0)
   \<and> sum_dummy lone_p (dummy (update_phase lone_p (Fin 1) unit_draws (init_trial lone_p 0)))
       = Fin 12
   \<and> x (update_phase lone_p (Fin 1) unit_draws (init_trial lone_p 0)) = [Fin 2]
   \<and> x (update_phase solo_p 1 ramp_draws (init_trial solo_p 0)) = [4]
   \<and> simulateLCA (solo_p\<lparr>beta := 7\<rparr>) ramp_draws = ([1], [1/2])"
proof -
  note r1 = trial_reach.enter [of solo_p 1 ramp_draws 0]
  note r2 = trial_reach.enter [of lone_p "Fin 1" unit_draws 0]
  note t = single_accumulator_sum_is_own_contribution
      [OF solo_fields(5) r1 lone_fields(1) r2, where b = 7]
  note t1 = t [THEN conjunct1]
  note t3 = t [THEN conjunct2, THEN conjunct2, THEN conjunct1]
  note t4 = t [THEN conjunct2, THEN conjunct2, THEN conjunct2, THEN conjunct1]
  note t5 = t [THEN conjunct2, THEN conjunct2, THEN conjunct2, THEN conjunct2, THEN conjunct1]
  have "sum_dummy lone_p (dummy (update_phase lone_p (Fin 1) unit_draws (init_trial lone_p 0)))
       = Fin 12"
    unfolding t1 by (simp add: lone_init lone_fields eval64)
  moreover have "x (update_phase lone_p (Fin 1) unit_draws (init_trial lone_p 0)) = [Fin 2]"
    unfolding t3 by (simp add: lone_init lone_fields eval64 unit_draws_def)
  moreover have "x (update_phase solo_p 1 ramp_draws (init_trial solo_p 0)) = [4]"
    unfolding t4 by (simp add: solo_init ramp_draws_def) (simp add: solo_p_def)
  moreover have "simulateLCA (solo_p\<lparr>beta := 7\<rparr>) ramp_draws = ([1], [1/2])"
    unfolding t5 by (simp add: solo_result)
  ultimately show ?thesis using r1 r2 by (simp add: solo_fields lone_fields)
qed

section \<open>Zero noise\<close>

text \<open>
  C6. With \<open>s = 0\<close>, two runs of the batch on the same configuration give the same
  responses, the same reaction times and the same final states, whatever the two
  generators return; and a step from any state gives the same state under both.
\<close>

theorem zero_noise_is_deterministic:
  assumes "s p = 0"
  shows "simulateLCA p rng1 = simulateLCA p rng2
       \<and> trial_states p rng1 = trial_states p rng2
       \<and> lca_step p (noise_factor (dt p) (s p)) rng1 st
           = lca_step p (noise_factor (dt p) (s p)) rng2 st"
proof -
  have rhs: "noise_factor (dt p) (s p) = 0" using assms by (simp add: noise_factor_def)
  have sts: "trial_states p rng1 = trial_states p rng2"
    unfolding trial_states_def rhs by (rule silent_trials)
  then have "simulateLCA p rng1 = simulateLCA p rng2" by (simp add: simulateLCA_def)
  with sts show ?thesis unfolding rhs using silent_step [of p rng1 st rng2] by simp
qed

theorem zero_noise_is_deterministic_witness:
  "s late_p = 0 \<and> zero_draws 0 \<noteq> ramp_draws 0
   \<and> simulateLCA late_p zero_draws = simulateLCA late_p ramp_draws
   \<and> simulateLCA late_p ramp_draws = ([1], [3/4])
   \<and> x (lca_step late_p (noise_factor (dt late_p) (s late_p)) zero_draws (init_trial late_p 0))
       = x (lca_step late_p (noise_factor (dt late_p) (s late_p)) ramp_draws (init_trial late_p 0))"
  using zero_noise_is_deterministic [of late_p zero_draws ramp_draws "init_trial late_p 0"]
  by (simp add: late_fields late_result zero_draws_def ramp_draws_def)

section \<open>NaN\<close>



end
